theory Spec2Isabelle
  imports Complex_Main "HOL-Library.FSet" "HOL-Library.AList" "HOL-Library.Log_Nat"
begin

section \<open>PageRank: the transition model, the sampler and the iterative solver\<close>

text \<open>
  The development embeds the three functions of \<^verbatim>\<open>pagerank.py\<close> that compute ranks:
  \<^verbatim>\<open>transition_model\<close>, \<^verbatim>\<open>sample_pagerank\<close> and \<^verbatim>\<open>iterate_pagerank\<close>.

  \<^item> A Python \<^verbatim>\<open>dict\<close> is an association list in insertion order. A dictionary has no
    duplicate keys, which is the hypothesis \<open>distinct (map fst corpus)\<close> of the theorems.
    \<^verbatim>\<open>d[k] = v\<close> is \<open>AList.update k v d\<close>: an existing key keeps its position, a new key
    goes to the end. \<^verbatim>\<open>d[k]\<close> is \<open>getitem d k\<close>, which raises \<open>KeyError\<close>.
  \<^item> A Python \<^verbatim>\<open>set\<close> of page names is a finite set (\<open>fset\<close>); \<^verbatim>\<open>len\<close> is \<open>fcard\<close>.
  \<^item> A Python \<^verbatim>\<open>float\<close> is the real number it denotes. Every arithmetic operation of the
    source rounds its exact result; the rounding operator is the first parameter \<open>rd\<close> of
    every function. \<open>exact\<close> (no rounding) gives arithmetic over the reals, \<open>binary64\<close>
    gives IEEE 754 double precision, round to nearest, ties to even.
  \<^item> An exception is a value \<open>Inl e\<close> of the sum type \<open>error + 'a\<close>.
  \<^item> \<^verbatim>\<open>random.choices\<close> belongs to Python's library, not to the program. It is the
    parameter \<open>rng\<close>: \<open>rng i population weights\<close> is what the \<open>i\<close>-th call returns.
  \<^item> The \<^verbatim>\<open>while True\<close> loop of \<^verbatim>\<open>iterate_pagerank\<close> is a partial function into
    \<open>option\<close>: \<open>None\<close> means that the loop runs forever.
\<close>

subsection \<open>Values, errors, dictionaries\<close>

datatype error = ZeroDivisionError | IndexError | KeyError | ValueError

type_synonym page = string

type_synonym corpus = "(page \<times> page fset) list"

type_synonym rankmap = "(page \<times> real) list"

type_synonym rounding = "real \<Rightarrow> real"

type_synonym chooser = "nat \<Rightarrow> page list \<Rightarrow> real list option \<Rightarrow> error + page"

definition exact :: rounding where
  "exact x = x"

definition bind_err :: "error + 'a \<Rightarrow> ('a \<Rightarrow> error + 'b) \<Rightarrow> error + 'b" where
  "bind_err m f = (case m of Inl e \<Rightarrow> Inl e | Inr x \<Rightarrow> f x)"

definition fdiv :: "rounding \<Rightarrow> real \<Rightarrow> real \<Rightarrow> error + real" where
  "fdiv rd x y = (if y = 0 then Inl ZeroDivisionError else Inr (rd (x / y)))"

definition getitem :: "('k \<times> 'v) list \<Rightarrow> 'k \<Rightarrow> error + 'v" where
  "getitem m k = (case map_of m k of None \<Rightarrow> Inl KeyError | Some v \<Rightarrow> Inr v)"

subsection \<open>IEEE 754 double precision rounding\<close>

text \<open>
  \<open>expo x\<close> is the binary exponent of \<open>x \<noteq> 0\<close>: the integer \<open>e\<close> with
  \<open>2 ^ e \<le> \<bar>x\<bar> < 2 ^ (e + 1)\<close>. It is computed from the bit length of an integer:
  \<open>\<bar>x\<bar>\<close> is first scaled by \<open>2 ^ k\<close> to a number that is at least 1.
  \<open>round_half_even\<close> rounds to the nearest integer, a tie to the even one.
  \<open>binary64\<close> keeps 53 significant bits. The exponent range is not bounded: overflow to
  infinity and gradual underflow are not modelled.
\<close>

definition expo :: "real \<Rightarrow> int" where
  "expo x = (let k = nat (bitlen \<lceil>1 / \<bar>x\<bar>\<rceil>) in bitlen \<lfloor>\<bar>x\<bar> * 2 ^ k\<rfloor> - 1 - int k)"

definition round_half_even :: "real \<Rightarrow> int" where
  "round_half_even m =
     (let f = \<lfloor>m\<rfloor>; r = m - of_int f
      in if r < 1 / 2 then f else if 1 / 2 < r then f + 1 else if even f then f else f + 1)"

definition binary64 :: rounding where
  "binary64 x =
     (if x = 0 then 0
      else let u = 2 powi (expo x - 52) in of_int (round_half_even (x / u)) * u)"

subsection \<open>\<^verbatim>\<open>transition_model\<close>\<close>

text \<open>
  The source:
  \<^verbatim>\<open>
  def transition_model(corpus, page, damping_factor):
      p = [damping_factor, 1 - damping_factor]
      model = dict()
      linked = set()
      unlinked = set()
      for key, value in corpus.items():
          model[key] = 0.0
          if key != page:
              continue
          linked = value
          unlinked = set()
          for key in corpus:
              if key in linked:
                  continue
              unlinked.add(key)
      linked_count = len(linked)
      unlinked_count = len(unlinked)
      total = linked_count + unlinked_count
      base_prob = p[1] / total
      for key in model:
          if key in linked:
              model[key] = base_prob + damping_factor / linked_count
          else:
              model[key] = base_prob
      return model
  \<close>
  The inner \<^verbatim>\<open>for key in corpus\<close> rebinds \<open>key\<close>, which the outer loop binds again at its
  next iteration: every key of the corpus gets its entry in \<open>model\<close>.
\<close>

text \<open>
  The inner loop of the first \<^verbatim>\<open>for\<close>: the pages of the corpus that are not in \<open>linked\<close>.
\<close>

definition collect_unlinked :: "corpus \<Rightarrow> page fset \<Rightarrow> page fset" where
  "collect_unlinked corpus linked =
     fold (\<lambda>key unlinked. if key |\<in>| linked then unlinked else finsert key unlinked)
       (map fst corpus) {||}"

text \<open>
  One iteration of \<^verbatim>\<open>for key, value in corpus.items()\<close>, on the state
  \<open>(model, linked, unlinked)\<close>.
\<close>

definition tm_scan_step ::
  "corpus \<Rightarrow> page \<Rightarrow> page \<times> page fset \<Rightarrow> rankmap \<times> page fset \<times> page fset
     \<Rightarrow> rankmap \<times> page fset \<times> page fset" where
  "tm_scan_step corpus page = (\<lambda>(key, value) (model, linked, unlinked).
     let model' = AList.update key 0 model
     in if key \<noteq> page then (model', linked, unlinked)
        else (model', value, collect_unlinked corpus value))"

text \<open>The loop \<^verbatim>\<open>for key in model\<close>, which fills in the probabilities.\<close>

fun tm_assign ::
  "rounding \<Rightarrow> page list \<Rightarrow> page fset \<Rightarrow> real \<Rightarrow> real \<Rightarrow> rankmap \<Rightarrow> error + rankmap" where
  "tm_assign rd [] linked base_prob d model = Inr model"
| "tm_assign rd (key # keys) linked base_prob d model =
     (if key |\<in>| linked then
        bind_err (fdiv rd d (real (fcard linked))) (\<lambda>q.
          tm_assign rd keys linked base_prob d (AList.update key (rd (base_prob + q)) model))
      else tm_assign rd keys linked base_prob d (AList.update key base_prob model))"

definition transition_model :: "rounding \<Rightarrow> corpus \<Rightarrow> page \<Rightarrow> real \<Rightarrow> error + rankmap" where
  "transition_model rd corpus page d =
     (let p1 = rd (1 - d);
          (model, linked, unlinked) = fold (tm_scan_step corpus page) corpus ([], {||}, {||});
          linked_count = fcard linked;
          unlinked_count = fcard unlinked;
          total = linked_count + unlinked_count
      in bind_err (fdiv rd p1 (real total)) (\<lambda>base_prob.
           tm_assign rd (map fst model) linked base_prob d model))"

subsection \<open>\<^verbatim>\<open>sample_pagerank\<close>\<close>

text \<open>
  The source:
  \<^verbatim>\<open>
  def sample_pagerank(corpus, damping_factor, n):
      rank = dict()
      for key in corpus:
          rank[key] = 0.0
      sample = random.choices(list(corpus))[0]
      rank[sample] += (1 / n)
      for i in range(1, n):
          model = transition_model(corpus, sample, damping_factor)
          next_pages = []
          probabilities = []
          for key, value in model.items():
              next_pages.append(key)
              probabilities.append(value)
          sample = random.choices(next_pages, weights=probabilities)[0]
          rank[sample] += (1 / n)
      return rank
  \<close>
\<close>

text \<open>\<^verbatim>\<open>rank[sample] += (1 / n)\<close>: the item is read, the quotient computed, the sum stored.\<close>

definition add_visit :: "rounding \<Rightarrow> int \<Rightarrow> page \<Rightarrow> rankmap \<Rightarrow> error + rankmap" where
  "add_visit rd n sample rank =
     bind_err (getitem rank sample) (\<lambda>old.
     bind_err (fdiv rd 1 (real_of_int n)) (\<lambda>inc.
       Inr (AList.update sample (rd (old + inc)) rank)))"

text \<open>The loop \<^verbatim>\<open>for i in range(1, n)\<close>, over the list of the values of \<open>i\<close>.\<close>

fun sample_steps ::
  "rounding \<Rightarrow> chooser \<Rightarrow> corpus \<Rightarrow> real \<Rightarrow> int \<Rightarrow> nat list \<Rightarrow> page \<Rightarrow> rankmap
     \<Rightarrow> error + rankmap" where
  "sample_steps rd rng corpus d n [] sample rank = Inr rank"
| "sample_steps rd rng corpus d n (i # rest) sample rank =
     bind_err (transition_model rd corpus sample d) (\<lambda>model.
     bind_err (rng i (map fst model) (Some (map snd model))) (\<lambda>sample'.
     bind_err (add_visit rd n sample' rank) (\<lambda>rank'.
       sample_steps rd rng corpus d n rest sample' rank')))"

definition sample_pagerank ::
  "rounding \<Rightarrow> chooser \<Rightarrow> corpus \<Rightarrow> real \<Rightarrow> int \<Rightarrow> error + rankmap" where
  "sample_pagerank rd rng corpus d n =
     (let rank = fold (\<lambda>key rank. AList.update key 0 rank) (map fst corpus) []
      in bind_err (rng 0 (map fst corpus) None) (\<lambda>sample.
         bind_err (add_visit rd n sample rank) (\<lambda>rank'.
           sample_steps rd rng corpus d n [1..<nat n] sample rank')))"

subsection \<open>\<^verbatim>\<open>iterate_pagerank\<close>\<close>

text \<open>
  The source:
  \<^verbatim>\<open>
  def iterate_pagerank(corpus, damping_factor):
      ranks = dict()
      threshold = 0.0005
      N = len(corpus)
      for key in corpus:
          ranks[key] = 1 / N
      while True:
          count = 0
          for key in corpus:
              new = (1 - damping_factor) / N
              sigma = 0
              for page in corpus:
                  if key in corpus[page]:
                      num_links = len(corpus[page])
                      sigma = sigma + ranks[page] / num_links
              sigma = damping_factor * sigma
              new += sigma
              if abs(ranks[key] - new) < threshold:
                  count += 1
              ranks[key] = new
          if count == N:
              break
      return ranks
  \<close>
\<close>

text \<open>The literal \<^verbatim>\<open>0.0005\<close>.\<close>

definition threshold :: "rounding \<Rightarrow> real" where
  "threshold rd = rd (5 / 10000)"

text \<open>The loop \<^verbatim>\<open>for key in corpus: ranks[key] = 1 / N\<close>.\<close>

fun init_ranks :: "rounding \<Rightarrow> page list \<Rightarrow> nat \<Rightarrow> rankmap \<Rightarrow> error + rankmap" where
  "init_ranks rd [] N ranks = Inr ranks"
| "init_ranks rd (key # keys) N ranks =
     bind_err (fdiv rd 1 (real N)) (\<lambda>v. init_ranks rd keys N (AList.update key v ranks))"

text \<open>
  The innermost loop \<^verbatim>\<open>for page in corpus\<close>, which adds to \<open>sigma\<close> the share of every
  page that links to \<open>key\<close>.
\<close>

fun sigma_loop ::
  "rounding \<Rightarrow> page list \<Rightarrow> corpus \<Rightarrow> page \<Rightarrow> rankmap \<Rightarrow> real \<Rightarrow> error + real" where
  "sigma_loop rd [] corpus key ranks sigma = Inr sigma"
| "sigma_loop rd (page # pages) corpus key ranks sigma =
     bind_err (getitem corpus page) (\<lambda>links.
       if key |\<in>| links then
         bind_err (getitem ranks page) (\<lambda>r.
         bind_err (fdiv rd r (real (fcard links))) (\<lambda>q.
           sigma_loop rd pages corpus key ranks (rd (sigma + q))))
       else sigma_loop rd pages corpus key ranks sigma)"

text \<open>
  One sweep, the loop \<^verbatim>\<open>for key in corpus\<close> inside \<^verbatim>\<open>while True\<close>, on the state
  \<open>(ranks, count)\<close>. The new rank is stored in \<open>ranks\<close> before the next key is treated.
\<close>

fun sweep_loop ::
  "rounding \<Rightarrow> page list \<Rightarrow> corpus \<Rightarrow> real \<Rightarrow> rankmap \<Rightarrow> nat \<Rightarrow> error + rankmap \<times> nat" where
  "sweep_loop rd [] corpus d ranks count = Inr (ranks, count)"
| "sweep_loop rd (key # keys) corpus d ranks count =
     bind_err (fdiv rd (rd (1 - d)) (real (length corpus))) (\<lambda>new0.
     bind_err (sigma_loop rd (map fst corpus) corpus key ranks 0) (\<lambda>sigma.
     bind_err (getitem ranks key) (\<lambda>old.
       let new = rd (new0 + rd (d * sigma));
           count' = (if \<bar>rd (old - new)\<bar> < threshold rd then count + 1 else count)
       in sweep_loop rd keys corpus d (AList.update key new ranks) count')))"

definition sweep :: "rounding \<Rightarrow> corpus \<Rightarrow> real \<Rightarrow> rankmap \<Rightarrow> error + rankmap \<times> nat" where
  "sweep rd corpus d ranks = sweep_loop rd (map fst corpus) corpus d ranks 0"

partial_function (option) iterate_loop ::
  "rounding \<Rightarrow> corpus \<Rightarrow> real \<Rightarrow> rankmap \<Rightarrow> (error + rankmap) option" where
  "iterate_loop rd corpus d ranks =
     (case sweep rd corpus d ranks of
        Inl e \<Rightarrow> Some (Inl e)
      | Inr (ranks', count) \<Rightarrow>
          if count = length corpus then Some (Inr ranks') else iterate_loop rd corpus d ranks')"

definition iterate_pagerank :: "rounding \<Rightarrow> corpus \<Rightarrow> real \<Rightarrow> (error + rankmap) option" where
  "iterate_pagerank rd corpus d =
     (case init_ranks rd (map fst corpus) (length corpus) [] of
        Inl e \<Rightarrow> Some (Inl e)
      | Inr ranks \<Rightarrow> iterate_loop rd corpus d ranks)"

subsection \<open>Notions used in the statements\<close>

text \<open>
  \<open>tab ks f\<close> is the dictionary with the keys \<open>ks\<close>, in this order, and the value \<open>f k\<close>
  at \<open>k\<close>.
\<close>

definition tab :: "page list \<Rightarrow> (page \<Rightarrow> real) \<Rightarrow> rankmap" where
  "tab ks f = map (\<lambda>k. (k, f k)) ks"

text \<open>
  The value that \<^verbatim>\<open>transition_model\<close> stores for the page \<open>q\<close>, with every operation
  rounded as the source computes it.
\<close>

definition tm_value :: "rounding \<Rightarrow> page fset \<Rightarrow> real \<Rightarrow> real \<Rightarrow> page \<Rightarrow> real" where
  "tm_value rd linked base_prob d q =
     (if q |\<in>| linked then rd (base_prob + rd (d / real (fcard linked))) else base_prob)"

text \<open>
  What the theorems assume of \<^verbatim>\<open>random.choices\<close>: on an empty population it raises
  \<open>IndexError\<close>; on a non-empty population, without weights or with as many positive weights
  as there are elements, it returns an element of the population.
\<close>

definition valid_rng :: "chooser \<Rightarrow> bool" where
  "valid_rng rng \<longleftrightarrow>
     (\<forall>i. rng i [] None = Inl IndexError) \<and>
     (\<forall>i pop. pop \<noteq> [] \<longrightarrow> (\<exists>x \<in> set pop. rng i pop None = Inr x)) \<and>
     (\<forall>i pop ws. pop \<noteq> [] \<and> length ws = length pop \<and> (\<forall>w \<in> set ws. 0 < w) \<longrightarrow>
        (\<exists>x \<in> set pop. rng i pop (Some ws) = Inr x))"

text \<open>A chooser that always returns the first element.\<close>

definition first_page :: chooser where
  "first_page i pop ws = (case pop of [] \<Rightarrow> Inl IndexError | x # _ \<Rightarrow> Inr x)"

text \<open>The share of the visits in the list \<open>visits\<close> that went to the page \<open>q\<close>.\<close>

definition visit_share :: "int \<Rightarrow> page list \<Rightarrow> page \<Rightarrow> real" where
  "visit_share n visits q = real (count_list visits q) / real_of_int n"

text \<open>
  The pages that \<^verbatim>\<open>sample_pagerank\<close> visits, in the order of the visits: the first is the
  page that \<^verbatim>\<open>random.choices(list(corpus))\<close> returns, and the page at position \<open>i\<close> is the
  one that the call of \<^verbatim>\<open>random.choices\<close> in the iteration \<open>i\<close> of the loop returns, for the
  transition model of the page visited just before.
\<close>

definition chosen_walk :: "rounding \<Rightarrow> chooser \<Rightarrow> corpus \<Rightarrow> real \<Rightarrow> page list \<Rightarrow> bool" where
  "chosen_walk rd rng corpus d visits \<longleftrightarrow>
     visits \<noteq> [] \<and>
     rng 0 (map fst corpus) None = Inr (visits ! 0) \<and>
     (\<forall>i. 0 < i \<and> i < length visits \<longrightarrow>
        (\<exists>model. transition_model rd corpus (visits ! (i - 1)) d = Inr model \<and>
           rng i (map fst model) (Some (map snd model)) = Inr (visits ! i)))"

text \<open>
  A chooser that returns the element at position \<open>i mod length pop\<close> in the iteration \<open>i\<close>.
\<close>

definition round_robin :: chooser where
  "round_robin i pop ws =
     (case pop of [] \<Rightarrow> Inl IndexError | x # xs \<Rightarrow> Inr (pop ! (i mod length pop)))"

text \<open>
  The value of \<^verbatim>\<open>sigma\<close> after the innermost loop of \<^verbatim>\<open>iterate_pagerank\<close>, for ranks given
  as a function, and the new rank of \<open>key\<close>; every operation is rounded as in the source.
\<close>

definition sigma_value :: "rounding \<Rightarrow> corpus \<Rightarrow> (page \<Rightarrow> real) \<Rightarrow> page \<Rightarrow> real" where
  "sigma_value rd corpus r key =
     fold (\<lambda>(q, links) s. if key |\<in>| links then rd (s + rd (r q / real (fcard links))) else s)
       corpus 0"

definition new_rank :: "rounding \<Rightarrow> corpus \<Rightarrow> real \<Rightarrow> (page \<Rightarrow> real) \<Rightarrow> page \<Rightarrow> real" where
  "new_rank rd corpus d r key =
     rd (rd (rd (1 - d) / real (length corpus)) + rd (d * sigma_value rd corpus r key))"

text \<open>
  One sweep on ranks given as a function: the state is the pair of the ranks and the
  counter. \<open>gs_sweep\<close> is the rank function after one sweep.
\<close>

definition sweep_fun ::
  "rounding \<Rightarrow> corpus \<Rightarrow> real \<Rightarrow> page list \<Rightarrow> (page \<Rightarrow> real) \<times> nat \<Rightarrow> (page \<Rightarrow> real) \<times> nat" where
  "sweep_fun rd corpus d keys =
     fold (\<lambda>key (r, c).
       let new = new_rank rd corpus d r key
       in (r(key := new), if \<bar>rd (r key - new)\<bar> < threshold rd then c + 1 else c)) keys"

definition gs_sweep :: "rounding \<Rightarrow> corpus \<Rightarrow> real \<Rightarrow> (page \<Rightarrow> real) \<Rightarrow> page \<Rightarrow> real" where
  "gs_sweep rd corpus d r = fst (sweep_fun rd corpus d (map fst corpus) (r, 0))"

text \<open>
  The recurrence as the specification writes it:
  \<open>rank(p) = (1 - d) / N + d * \<Sum>{rank(q) / outdegree(q) | p \<in> links(q)}\<close>,
  and the synchronous sweep of the specification, which evaluates the recurrence for every
  page over the old ranks.
\<close>

definition incoming :: "corpus \<Rightarrow> (page \<Rightarrow> real) \<Rightarrow> page \<Rightarrow> real" where
  "incoming corpus r p =
     sum_list (map (\<lambda>(q, links). if p |\<in>| links then r q / real (fcard links) else 0) corpus)"

definition recurrence :: "corpus \<Rightarrow> real \<Rightarrow> (page \<Rightarrow> real) \<Rightarrow> page \<Rightarrow> real" where
  "recurrence corpus d r p = (1 - d) / real (length corpus) + d * incoming corpus r p"

definition sync_sweep :: "corpus \<Rightarrow> real \<Rightarrow> rankmap \<Rightarrow> rankmap" where
  "sync_sweep corpus d ranks =
     map (\<lambda>(p, old). (p, recurrence corpus d (\<lambda>q. the (map_of ranks q)) p)) ranks"

text \<open>
  The ranks after \<open>k\<close> sweeps, and the test that a sweep changed every rank by less than
  the threshold.
\<close>

fun after_sweeps :: "rounding \<Rightarrow> corpus \<Rightarrow> real \<Rightarrow> nat \<Rightarrow> rankmap \<Rightarrow> error + rankmap" where
  "after_sweeps rd corpus d 0 ranks = Inr ranks"
| "after_sweeps rd corpus d (Suc k) ranks =
     bind_err (sweep rd corpus d ranks) (\<lambda>(ranks', count). after_sweeps rd corpus d k ranks')"

definition changes_below :: "rounding \<Rightarrow> rankmap \<Rightarrow> rankmap \<Rightarrow> bool" where
  "changes_below rd old new \<longleftrightarrow>
     list_all2 (\<lambda>(p, v) (p', v'). p = p' \<and> \<bar>rd (v - v')\<bar> < threshold rd) old new"

text \<open>
  The share of the rank of the page at position \<open>j\<close> that goes to the page at position \<open>i\<close>,
  and a weighted sum of absolute values under which one sweep is a contraction.
\<close>

definition link_weight :: "corpus \<Rightarrow> nat \<Rightarrow> nat \<Rightarrow> real" where
  "link_weight corpus i j =
     (if fst (corpus ! i) |\<in>| snd (corpus ! j) then 1 / real (fcard (snd (corpus ! j))) else 0)"

definition wnorm :: "corpus \<Rightarrow> real \<Rightarrow> (nat \<Rightarrow> real) \<Rightarrow> real" where
  "wnorm corpus d f =
     (\<Sum>j<length corpus.
        (1 - d * sum (\<lambda>i. link_weight corpus i j) ({..<length corpus} \<inter> {i. j < i})) * \<bar>f j\<bar>)"

section \<open>The rounding operator\<close>

text \<open>
  \<open>expo x\<close> is the binary exponent of \<open>x\<close>, and \<open>binary64 x\<close> differs from \<open>x\<close> by at most
  half a unit in the last of 53 places. The double nearest to \<open>0.1\<close> is an example.
\<close>

lemma expo_bounds:
  assumes "x \<noteq> 0"
  shows "2 powi expo x \<le> \<bar>x\<bar> \<and> \<bar>x\<bar> < 2 powi (expo x + 1)"
proof -
  define k where "k = nat (bitlen \<lceil>1 / \<bar>x\<bar>\<rceil>)"
  define m where "m = \<lfloor>\<bar>x\<bar> * 2 ^ k\<rfloor>"
  have ax: "0 < \<bar>x\<bar>" using assms by simp
  have c1: "0 < \<lceil>1 / \<bar>x\<bar>\<rceil>" using ax by (simp add: ceiling_less_iff [symmetric])
  have "real_of_int \<lceil>1 / \<bar>x\<bar>\<rceil> < 2 ^ k"
    using bitlen_bounds [OF c1] unfolding k_def
    by (metis of_int_less_iff of_int_numeral of_int_power)
  then have "1 / \<bar>x\<bar> < 2 ^ k" using le_of_int_ceiling [of "1 / \<bar>x\<bar>"] by linarith
  then have big: "1 < \<bar>x\<bar> * 2 ^ k" using ax by (simp add: field_simps)
  then have m1: "0 < m" unfolding m_def by simp
  have e: "expo x = bitlen m - 1 - int k" by (simp add: expo_def Let_def k_def m_def)
  have bl: "1 \<le> bitlen m" using m1 by (simp add: bitlen_alt_def)
  from bitlen_bounds [OF m1]
  have lo: "2 ^ nat (bitlen m - 1) \<le> m" and hi: "m < 2 ^ nat (bitlen m)" by simp_all
  have "real_of_int m \<le> \<bar>x\<bar> * 2 ^ k" unfolding m_def by simp
  with lo have lo': "2 ^ nat (bitlen m - 1) \<le> \<bar>x\<bar> * 2 ^ k"
    by (metis (mono_tags) of_int_le_iff of_int_numeral of_int_power order_trans)
  have "\<bar>x\<bar> * 2 ^ k < real_of_int m + 1" unfolding m_def by linarith
  moreover have "real_of_int m + 1 \<le> 2 ^ nat (bitlen m)"
    using hi by (metis (mono_tags) of_int_le_iff of_int_numeral of_int_power zless_imp_add1_zle of_int_add of_int_1)
  ultimately have hi': "\<bar>x\<bar> * 2 ^ k < 2 ^ nat (bitlen m)" by linarith
  have q1: "(2::real) powi (bitlen m - 1) = 2 ^ nat (bitlen m - 1)"
    using power_int_of_nat [of "2::real" "nat (bitlen m - 1)"] bl by simp
  have q2: "(2::real) powi (bitlen m) = 2 ^ nat (bitlen m)"
    using power_int_of_nat [of "2::real" "nat (bitlen m)"] bl by simp
  have "(2::real) powi (bitlen m - 1 - int k) = 2 powi (bitlen m - 1) / 2 powi (int k)"
    by (rule power_int_diff) simp
  then have p1: "(2::real) powi (bitlen m - 1 - int k) = 2 ^ nat (bitlen m - 1) / 2 ^ k"
    by (simp only: q1 power_int_of_nat)
  have "(2::real) powi (bitlen m - int k) = 2 powi (bitlen m) / 2 powi (int k)"
    by (rule power_int_diff) simp
  then have "(2::real) powi (bitlen m - int k) = 2 ^ nat (bitlen m) / 2 ^ k"
    by (simp only: q2 power_int_of_nat)
  moreover have "bitlen m - 1 - int k + 1 = bitlen m - int k" by simp
  ultimately have p2: "(2::real) powi (bitlen m - 1 - int k + 1) = 2 ^ nat (bitlen m) / 2 ^ k"
    by (simp only:)
  have "2 ^ nat (bitlen m - 1) / 2 ^ k \<le> \<bar>x\<bar>" using lo' by (simp add: field_simps)
  moreover have "\<bar>x\<bar> < 2 ^ nat (bitlen m) / 2 ^ k" using hi' by (simp add: field_simps)
  ultimately show ?thesis unfolding e p1 p2 by simp
qed


lemma round_half_even_near: "\<bar>of_int (round_half_even m) - m\<bar> \<le> 1 / 2"
proof -
  define f where "f = \<lfloor>m\<rfloor>"
  have b: "of_int f \<le> m" "m < of_int f + 1" unfolding f_def by linarith+
  have r: "round_half_even m =
      (if m - of_int f < 1 / 2 then f else if 1 / 2 < m - of_int f then f + 1
       else if even f then f else f + 1)"
    by (simp add: round_half_even_def Let_def f_def)
  consider "m - of_int f < 1 / 2" | "1 / 2 < m - of_int f" | "m - of_int f = 1 / 2" by linarith
  then show ?thesis
  proof cases
    case 1
    then have "round_half_even m = f" by (simp add: r)
    then show ?thesis using 1 b by simp
  next
    case 2
    then have "round_half_even m = f + 1" by (simp add: r)
    then show ?thesis using 2 b by simp
  next
    case 3
    then have "round_half_even m = f \<or> round_half_even m = f + 1" by (simp add: r)
    then show ?thesis using 3 by auto
  qed
qed

lemma binary64_error:
  assumes "x \<noteq> 0"
  shows "\<bar>binary64 x - x\<bar> \<le> 2 powi (expo x - 53)"
proof -
  define u :: real where "u = 2 powi (expo x - 52)"
  have u: "0 < u" by (simp add: u_def)
  have "binary64 x - x = (of_int (round_half_even (x / u)) - x / u) * u"
    using u assms by (simp add: binary64_def Let_def u_def [symmetric] algebra_simps)
  then have "\<bar>binary64 x - x\<bar> = \<bar>of_int (round_half_even (x / u)) - x / u\<bar> * u"
    using u by (simp add: abs_mult)
  also have "\<dots> \<le> 1 / 2 * u"
    by (rule mult_right_mono [OF round_half_even_near]) (use u in simp)
  also have "\<dots> = 2 powi (expo x - 53)"
  proof -
    have "(2::real) powi (expo x - 52) = 2 powi (expo x - 53 + 1)" by simp
    also have "\<dots> = 2 powi (expo x - 53) * 2" by (subst power_int_add) simp_all
    finally show ?thesis by (simp add: u_def)
  qed
  finally show ?thesis .
qed

lemma binary64_tenth: "binary64 (1 / 10) = 3602879701896397 / 36028797018963968"
  by code_simp

section \<open>Dictionaries as tables\<close>

lemma map_fst_tab: "map fst (tab ks f) = ks"
  by (simp add: tab_def comp_def)

lemma length_tab: "length (tab ks f) = length ks"
  by (simp add: tab_def)

lemma tab_Nil: "tab [] f = []"
  by (simp add: tab_def)

lemma update_fresh: "k \<notin> fst ` set al \<Longrightarrow> AList.update k v al = al @ [(k, v)]"
  by (induction al) auto

lemma update_tab:
  "distinct ks \<Longrightarrow> k \<in> set ks \<Longrightarrow> AList.update k v (tab ks f) = tab ks (f(k := v))"
  by (induction ks) (auto simp: tab_def)

lemma map_of_tab: "map_of (tab ks f) k = (if k \<in> set ks then Some (f k) else None)"
  by (induction ks) (auto simp: tab_def)

lemma getitem_tab: "k \<in> set ks \<Longrightarrow> getitem (tab ks f) k = Inr (f k)"
  by (simp add: getitem_def map_of_tab)

lemma getitem_corpus:
  "distinct (map fst corpus) \<Longrightarrow> (k, v) \<in> set corpus \<Longrightarrow> getitem corpus k = Inr v"
  by (simp add: getitem_def)

lemma tab_cong: "(\<And>k. k \<in> set ks \<Longrightarrow> f k = g k) \<Longrightarrow> tab ks f = tab ks g"
  by (simp add: tab_def)

lemma fold_update_const:
  "distinct (map fst m @ ks) \<Longrightarrow>
   fold (\<lambda>key. AList.update key v) ks m = m @ tab ks (\<lambda>_. v)"
proof (induction ks arbitrary: m)
  case Nil
  then show ?case by (simp add: tab_def)
next
  case (Cons k ks)
  have fresh: "k \<notin> fst ` set m" using Cons.prems by auto
  have "distinct (map fst (m @ [(k, v)]) @ ks)" using Cons.prems by auto
  from Cons.IH [OF this] show ?case
    by (simp add: update_fresh [OF fresh] tab_def)
qed

section \<open>The transition model\<close>

lemma scan_model:
  "distinct (map fst m @ map fst xs) \<Longrightarrow>
   fst (fold (tm_scan_step C page) xs (m, l, u)) = m @ tab (map fst xs) (\<lambda>_. 0)"
proof (induction xs arbitrary: m l u)
  case Nil
  then show ?case by (simp add: tab_def)
next
  case (Cons x xs)
  obtain k v where x: "x = (k, v)" by (cases x)
  have fresh: "k \<notin> fst ` set m" using Cons.prems x by auto
  have d: "distinct (map fst (m @ [(k, 0)]) @ map fst xs)" using Cons.prems x by auto
  have step: "tm_scan_step C page x (m, l, u) =
      (m @ [(k, 0)], if k \<noteq> page then l else v, if k \<noteq> page then u else collect_unlinked C v)"
    using update_fresh [OF fresh, of 0] by (auto simp: x tm_scan_step_def Let_def)
  show ?case
    using Cons.IH [OF d] by (simp add: step) (simp add: x tab_def)
qed

lemma scan_links:
  "distinct (map fst xs) \<Longrightarrow>
   snd (fold (tm_scan_step C page) xs (m, l, u)) =
     (case map_of xs page of None \<Rightarrow> (l, u) | Some v \<Rightarrow> (v, collect_unlinked C v))"
proof (induction xs arbitrary: m l u)
  case Nil
  then show ?case by simp
next
  case (Cons x xs)
  obtain k v where x: "x = (k, v)" by (cases x)
  have dx: "distinct (map fst xs)" and nk: "k \<notin> fst ` set xs" using Cons.prems x by auto
  show ?case
  proof (cases "k = page")
    case True
    then have "map_of xs page = None" using nk by (simp add: map_of_eq_None_iff)
    then show ?thesis using Cons.IH [OF dx] True by (simp add: x tm_scan_step_def Let_def)
  next
    case False
    then show ?thesis using Cons.IH [OF dx] by (simp add: x tm_scan_step_def Let_def)
  qed
qed

lemma collect_unlinked_eq:
  "collect_unlinked C v = fset_of_list (filter (\<lambda>k. k |\<notin>| v) (map fst C))"
proof -
  have "fold (\<lambda>key unlinked. if key |\<in>| v then unlinked else finsert key unlinked) ks acc
        = fset_of_list (filter (\<lambda>k. k |\<notin>| v) ks) |\<union>| acc" for ks acc
    by (induction ks arbitrary: acc) auto
  then show ?thesis by (simp add: collect_unlinked_def)
qed

lemma fcard_fset_of_list: "distinct xs \<Longrightarrow> fcard (fset_of_list xs) = length xs"
  by (simp add: fcard.rep_eq fset_of_list.rep_eq distinct_card)

lemma fcard_collect_unlinked:
  "distinct (map fst C) \<Longrightarrow>
   fcard (collect_unlinked C v) = length (filter (\<lambda>k. k |\<notin>| v) (map fst C))"
proof -
  assume "distinct (map fst C)"
  then have "distinct (filter (\<lambda>k. k |\<notin>| v) (map fst C))" by (rule distinct_filter)
  from fcard_fset_of_list [OF this] show ?thesis by (simp only: collect_unlinked_eq)
qed

lemma total_closed:
  assumes "distinct ks" and "fset v \<subseteq> set ks"
  shows "fcard v + length (filter (\<lambda>k. k |\<notin>| v) ks) = length ks"
proof -
  have "fset v = set (filter (\<lambda>k. k |\<in>| v) ks)" using assms(2) by auto
  moreover have "card (set (filter (\<lambda>k. k |\<in>| v) ks)) = length (filter (\<lambda>k. k |\<in>| v) ks)"
    using assms(1) by (intro distinct_card distinct_filter)
  ultimately have "fcard v = length (filter (\<lambda>k. k |\<in>| v) ks)"
    by (simp only: fcard.rep_eq)
  then show ?thesis
    using sum_length_filter_compl [of "\<lambda>k. k |\<in>| v" ks] by simp
qed

lemma tm_assign_tab:
  "distinct ks \<Longrightarrow> set js \<subseteq> set ks \<Longrightarrow>
   tm_assign rd js linked b d (tab ks f) =
     Inr (tab ks (\<lambda>k. if k \<in> set js then tm_value rd linked b d k else f k))"
proof (induction js arbitrary: f)
  case Nil
  then show ?case by simp
next
  case (Cons j js)
  have j: "j \<in> set ks" and js: "set js \<subseteq> set ks" using Cons.prems by auto
  have upd: "AList.update j (tm_value rd linked b d j) (tab ks f)
             = tab ks (f(j := tm_value rd linked b d j))"
    by (rule update_tab [OF Cons.prems(1) j])
  have ih: "tm_assign rd js linked b d (tab ks (f(j := tm_value rd linked b d j))) =
      Inr (tab ks (\<lambda>k. if k \<in> set (j # js) then tm_value rd linked b d k else f k))"
    by (simp add: Cons.IH [OF Cons.prems(1) js]) (rule tab_cong, simp)
  show ?case
  proof (cases "j |\<in>| linked")
    case True
    then have "fcard linked \<noteq> 0" by auto
    then have "fdiv rd d (real (fcard linked)) = Inr (rd (d / real (fcard linked)))"
      by (simp add: fdiv_def)
    then show ?thesis
      using True upd ih by (simp add: bind_err_def tm_value_def)
  next
    case False
    then show ?thesis using upd ih by (simp add: tm_value_def)
  qed
qed

lemma transition_model_eq:
  assumes dist: "distinct (map fst corpus)" and page: "(page, L) \<in> set corpus"
  shows "transition_model rd corpus page d =
     Inr (tab (map fst corpus)
       (tm_value rd L
          (rd (rd (1 - d) / real (fcard L + length (filter (\<lambda>k. k |\<notin>| L) (map fst corpus)))))
          d))"
proof -
  let ?ks = "map fst corpus"
  let ?scan = "fold (tm_scan_step corpus page) corpus ([], {||}, {||})"
  let ?total = "fcard L + length (filter (\<lambda>k. k |\<notin>| L) ?ks)"
  have m: "map_of corpus page = Some L" using dist page by simp
  have "fst ?scan = tab ?ks (\<lambda>_. 0)" using scan_model [of "[]" corpus] dist by simp
  moreover have "snd ?scan = (L, collect_unlinked corpus L)"
    using scan_links [OF dist] m by simp
  ultimately have scan: "?scan = (tab ?ks (\<lambda>_. 0), L, collect_unlinked corpus L)"
    by (metis prod.collapse)
  have pk: "page \<in> set ?ks" using page by force
  have "?total \<noteq> 0"
  proof (cases "page |\<in>| L")
    case True
    then have "fcard L \<noteq> 0" by auto
    then show ?thesis by simp
  next
    case False
    with pk have "\<exists>k \<in> set ?ks. k |\<notin>| L" by blast
    then have "filter (\<lambda>k. k |\<notin>| L) ?ks \<noteq> []" by (simp only: filter_empty_conv) blast
    then show ?thesis by (simp only: add_eq_0_iff_both_eq_0 length_0_conv) blast
  qed
  then have "real ?total \<noteq> 0" by (simp only: of_nat_eq_0_iff) simp
  then have base: "fdiv rd (rd (1 - d)) (real ?total) = Inr (rd (rd (1 - d) / real ?total))"
    unfolding fdiv_def by (rule if_not_P)
  show ?thesis
    unfolding transition_model_def Let_def scan prod.case fcard_collect_unlinked [OF dist]
      map_fst_tab
    by (simp only: base bind_err_def sum.case tm_assign_tab [OF dist subset_refl] if_True
        cong: tab_cong)
qed

lemma transition_model_closed:
  assumes dist: "distinct (map fst corpus)" and page: "(page, L) \<in> set corpus"
    and closed: "fset L \<subseteq> set (map fst corpus)"
  shows "transition_model rd corpus page d =
     Inr (tab (map fst corpus) (tm_value rd L (rd (rd (1 - d) / real (length corpus))) d))"
  using transition_model_eq [OF dist page, of rd d] by (simp only: total_closed [OF dist closed] length_map)

lemma fcard_filter_closed:
  assumes "distinct ks" and "fset v \<subseteq> set ks"
  shows "fcard v = length (filter (\<lambda>k. k |\<in>| v) ks)"
proof -
  have "fset v = set (filter (\<lambda>k. k |\<in>| v) ks)" using assms(2) by auto
  moreover have "card (set (filter (\<lambda>k. k |\<in>| v) ks)) = length (filter (\<lambda>k. k |\<in>| v) ks)"
    using assms(1) by (intro distinct_card distinct_filter)
  ultimately show ?thesis by (simp only: fcard.rep_eq)
qed

lemma sum_list_base_share:
  "sum_list (map (\<lambda>q. a + (if P q then b else 0)) ks) =
     real (length ks) * a + real (length (filter P ks)) * (b::real)"
  by (induction ks) (simp_all add: algebra_simps)

text \<open>
  For a page with at least one link, in a closed corpus, the values of the transition
  model sum to 1.
\<close>

lemma transition_model_linked_total:
  assumes "distinct (map fst corpus)" and "(p, L) \<in> set corpus"
    and "fset L \<subseteq> set (map fst corpus)" and "0 < fcard L"
  shows "sum_list (map snd (tab (map fst corpus)
       (\<lambda>q. (1 - d) / real (length corpus) + (if q |\<in>| L then d / real (fcard L) else 0)))) = 1"
proof -
  let ?ks = "map fst corpus"
  have "corpus \<noteq> []" using assms(2) by auto
  then have N: "real (length corpus) \<noteq> 0" by simp
  have k: "real (fcard L) \<noteq> 0" using assms(4) by (simp only: of_nat_eq_0_iff)
  have len: "length (filter (\<lambda>q. q |\<in>| L) ?ks) = fcard L"
    by (rule fcard_filter_closed [OF assms(1,3), symmetric])
  have "sum_list (map snd (tab ?ks
       (\<lambda>q. (1 - d) / real (length corpus) + (if q |\<in>| L then d / real (fcard L) else 0)))) =
     sum_list (map (\<lambda>q. (1 - d) / real (length corpus) + (if q |\<in>| L then d / real (fcard L) else 0)) ?ks)"
    by (simp add: tab_def comp_def)
  also have "\<dots> = real (length ?ks) * ((1 - d) / real (length corpus))
      + real (length (filter (\<lambda>q. q |\<in>| L) ?ks)) * (d / real (fcard L))"
    by (rule sum_list_base_share)
  also have "\<dots> = 1" unfolding len length_map using N k by simp
  finally show ?thesis .
qed

lemma exact_id: "exact = (\<lambda>x. x)"
  by (rule ext) (simp add: exact_def)

text \<open>
  Claim C3. In exact arithmetic, for a corpus whose keys are distinct, a page \<open>p\<close> of the
  corpus whose link set \<open>L\<close> has only pages of the corpus and \<open>k = fcard L > 0\<close> of them,
  and a damping \<open>d\<close> in \<open>(0, 1)\<close>, \<^verbatim>\<open>transition_model\<close> returns the dictionary over the
  pages of the corpus that gives every page \<open>q\<close> the value
  \<open>(1 - d) / N + (if q \<in> L then d / k else 0)\<close>, where \<open>N\<close> is the number of pages.
  Under any rounding operator the value is this expression with every operation of the
  source rounded once.
\<close>

theorem transition_model_linked:
  assumes "distinct (map fst corpus)"
    and "(p, L) \<in> set corpus"
    and "fset L \<subseteq> set (map fst corpus)"
    and "0 < fcard L"
    and "0 < d" and "d < 1"
  shows "transition_model exact corpus p d =
     Inr (tab (map fst corpus)
       (\<lambda>q. (1 - d) / real (length corpus) + (if q |\<in>| L then d / real (fcard L) else 0))) \<and>
     transition_model rd corpus p d =
     Inr (tab (map fst corpus)
       (\<lambda>q. if q |\<in>| L then rd (rd (rd (1 - d) / real (length corpus)) + rd (d / real (fcard L)))
            else rd (rd (1 - d) / real (length corpus))))"
proof
  have "tm_value exact L (exact (exact (1 - d) / real (length corpus))) d =
      (\<lambda>q. (1 - d) / real (length corpus) + (if q |\<in>| L then d / real (fcard L) else 0))"
    by (rule ext) (simp add: tm_value_def exact_def)
  with transition_model_closed [OF assms(1-3), of exact d]
  show "transition_model exact corpus p d =
     Inr (tab (map fst corpus)
       (\<lambda>q. (1 - d) / real (length corpus) + (if q |\<in>| L then d / real (fcard L) else 0)))"
    by simp
next
  have "tm_value rd L (rd (rd (1 - d) / real (length corpus))) d =
      (\<lambda>q. if q |\<in>| L then rd (rd (rd (1 - d) / real (length corpus)) + rd (d / real (fcard L)))
            else rd (rd (1 - d) / real (length corpus)))"
    by (rule ext) (simp add: tm_value_def)
  with transition_model_closed [OF assms(1-3), of rd d]
  show "transition_model rd corpus p d =
     Inr (tab (map fst corpus)
       (\<lambda>q. if q |\<in>| L then rd (rd (rd (1 - d) / real (length corpus)) + rd (d / real (fcard L)))
            else rd (rd (1 - d) / real (length corpus))))"
    by simp
qed

theorem transition_model_linked_witness:
  "distinct (map fst [(''A'', {|''B''|}), (''B'', {|''A'', ''C''|}), (''C'', {|''A''|})]) \<and>
   (''B'', {|''A'', ''C''|}) \<in> set [(''A'', {|''B''|}), (''B'', {|''A'', ''C''|}), (''C'', {|''A''|})] \<and>
   fset {|''A'', ''C''|} \<subseteq> set (map fst [(''A'', {|''B''|}), (''B'', {|''A'', ''C''|}), (''C'', {|''A''|})]) \<and>
   0 < fcard {|''A'', ''C''|} \<and> (0::real) < 1 / 2 \<and> (1::real) / 2 < 1 \<and>
   transition_model exact [(''A'', {|''B''|}), (''B'', {|''A'', ''C''|}), (''C'', {|''A''|})] ''B'' (1 / 2) =
     Inr [(''A'', 5 / 12), (''B'', 1 / 6), (''C'', 5 / 12)]"
  using transition_model_linked [of "[(''A'', {|''B''|}), (''B'', {|''A'', ''C''|}), (''C'', {|''A''|})]"
      "''B''" "{|''A'', ''C''|}" "1 / 2" exact]
  by (simp add: tab_def fcard_finsert_if fcard_fempty)

lemma sum_list_const: "sum_list (map (\<lambda>_. c) xs) = real (length xs) * (c::real)"
  by (induction xs) (simp_all add: algebra_simps)

text \<open>
  Claim C10. In exact arithmetic, for a page \<open>p\<close> of the corpus with no outgoing link,
  \<^verbatim>\<open>transition_model\<close> gives every page of the corpus the same value \<open>(1 - d) / N\<close>,
  and the values sum to \<open>1 - d\<close>, not to 1. Under any rounding operator every page gets
  the same value, the rounded quotient of the rounded difference.
\<close>

theorem transition_model_dangling:
  assumes "distinct (map fst corpus)"
    and "(p, {||}) \<in> set corpus"
    and "0 < d" and "d < 1"
  shows "transition_model exact corpus p d =
           Inr (tab (map fst corpus) (\<lambda>q. (1 - d) / real (length corpus))) \<and>
         sum_list (map snd (tab (map fst corpus) (\<lambda>q. (1 - d) / real (length corpus)))) = 1 - d \<and>
         transition_model rd corpus p d =
           Inr (tab (map fst corpus) (\<lambda>q. rd (rd (1 - d) / real (length corpus))))"
proof -
  have "tm_value rd {||} (rd (rd (1 - d) / real (length corpus))) d =
      (\<lambda>q. rd (rd (1 - d) / real (length corpus)))" for rd
    by (rule ext) (simp add: tm_value_def)
  with transition_model_closed [OF assms(1,2), of _ d]
  have gen: "transition_model rd corpus p d =
           Inr (tab (map fst corpus) (\<lambda>q. rd (rd (1 - d) / real (length corpus))))" for rd
    by simp
  have 1: "transition_model exact corpus p d =
           Inr (tab (map fst corpus) (\<lambda>q. (1 - d) / real (length corpus)))"
    using gen [of exact] by (simp add: exact_def)
  have "corpus \<noteq> []" using assms(2) by auto
  then have "real (length corpus) \<noteq> 0" by simp
  then have 2: "sum_list (map snd (tab (map fst corpus) (\<lambda>q. (1 - d) / real (length corpus)))) = 1 - d"
    by (simp add: tab_def comp_def sum_list_const)
  from 1 2 gen [of rd] show ?thesis by (intro conjI)
qed

theorem transition_model_dangling_witness:
  "distinct (map fst [(''A'', {|''B''|}), (''B'', {||})]) \<and>
   (''B'', {||}) \<in> set [(''A'', {|''B''|}), (''B'', {||})] \<and>
   (0::real) < 85 / 100 \<and> (85::real) / 100 < 1 \<and>
   transition_model exact [(''A'', {|''B''|}), (''B'', {||})] ''B'' (85 / 100) =
     Inr [(''A'', 3 / 40), (''B'', 3 / 40)] \<and>
   sum_list (map snd [(''A'', 3 / 40), (''B'', 3 / 40 :: real)]) = 1 - 85 / 100"
  using transition_model_dangling [of "[(''A'', {|''B''|}), (''B'', {||})]" "''B''" "85 / 100" exact]
  by (simp add: tab_def)

text \<open>
  Claim C2 does not hold of the code. The docstring of \<^verbatim>\<open>transition_model\<close> promises a
  probability distribution, but for the page \<^verbatim>\<open>B\<close> of the corpus
  \<^verbatim>\<open>{"A": {"B"}, "B": set()}\<close>, which has no outgoing link, and damping \<^verbatim>\<open>0.85\<close> the
  returned values sum to \<open>0.15\<close>.
\<close>

theorem transition_model_dangling_not_distribution:
  "transition_model exact [(''A'', {|''B''|}), (''B'', {||})] ''B'' (85 / 100) =
     Inr [(''A'', 3 / 40), (''B'', 3 / 40)] \<and>
   sum_list (map snd [(''A'', 3 / 40), (''B'', 3 / 40 :: real)]) = 15 / 100"
  by code_simp

section \<open>The sampler\<close>

lemma valid_first_page: "valid_rng first_page"
  by (auto simp: valid_rng_def first_page_def split: list.splits)

lemma round_robin_nonempty:
  assumes "pop \<noteq> []"
  shows "round_robin i pop ws = Inr (pop ! (i mod length pop))"
  using assms by (cases pop) (simp_all add: round_robin_def)

lemma valid_round_robin: "valid_rng round_robin"
proof -
  have "\<exists>x \<in> set pop. round_robin i pop ws = Inr x" if "pop \<noteq> []" for i pop ws
  proof -
    from that have "i mod length pop < length pop" by simp
    then have "pop ! (i mod length pop) \<in> set pop" by (rule nth_mem)
    with round_robin_nonempty [OF that] show ?thesis by blast
  qed
  moreover have "round_robin i [] None = Inl IndexError" for i by (simp add: round_robin_def)
  ultimately show ?thesis unfolding valid_rng_def by blast
qed

lemma chosen_walk_unique:
  assumes "chosen_walk rd rng corpus d vs" and "chosen_walk rd rng corpus d ws"
    and "length vs = length ws"
  shows "vs = ws"
proof -
  have "i < length vs \<Longrightarrow> vs ! i = ws ! i" for i
  proof (induction i)
    case 0
    from assms(1,2) have "Inr (vs ! 0) = (Inr (ws ! 0) :: error + page)"
      by (simp add: chosen_walk_def)
    then show ?case by simp
  next
    case (Suc i)
    then have prev: "vs ! i = ws ! i" by simp
    from assms(1) Suc.prems obtain m where
      m: "transition_model rd corpus (vs ! i) d = Inr m"
        "rng (Suc i) (map fst m) (Some (map snd m)) = Inr (vs ! Suc i)"
      unfolding chosen_walk_def by (metis diff_Suc_1 zero_less_Suc)
    from assms(2,3) Suc.prems obtain m' where
      m': "transition_model rd corpus (ws ! i) d = Inr m'"
        "rng (Suc i) (map fst m') (Some (map snd m')) = Inr (ws ! Suc i)"
      unfolding chosen_walk_def by (metis diff_Suc_1 zero_less_Suc)
    from m(1) m'(1) prev have "m = m'" by simp
    with m(2) m'(2) show ?case by simp
  qed
  with assms(3) show ?thesis by (simp add: list_eq_iff_nth_eq)
qed

lemma init_rank_tab:
  "distinct ks \<Longrightarrow> fold (\<lambda>key rank. AList.update key 0 rank) ks [] = tab ks (\<lambda>_. 0)"
  using fold_update_const [of "[]" ks 0] by simp

lemma add_visit_tab:
  assumes "distinct ks" and "s \<in> set ks" and "n \<noteq> 0"
  shows "add_visit rd n s (tab ks f) = Inr (tab ks (f(s := rd (f s + rd (1 / real_of_int n)))))"
  using assms by (simp add: add_visit_def getitem_tab bind_err_def fdiv_def update_tab)


lemma visit_share_snoc:
  "(visit_share n vs)(s := visit_share n vs s + 1 / real_of_int n) = visit_share n (vs @ [s])"
  by (rule ext) (simp add: visit_share_def add_divide_distrib)

lemma tm_value_pos:
  assumes "0 \<le> d" and "0 < b"
  shows "0 < tm_value exact L b d q"
proof -
  have "0 \<le> d / real (fcard L)" using assms(1) by simp
  then show ?thesis using assms(2) by (simp add: tm_value_def exact_def)
qed

lemma sample_steps_walk:
  assumes rng: "valid_rng rng" and dist: "distinct (map fst corpus)"
    and d: "0 \<le> d" "d < 1" and n: "n \<noteq> 0"
  shows "s \<in> set (map fst corpus) \<Longrightarrow>
    \<exists>vs'. length vs' = length js \<and> set vs' \<subseteq> set (map fst corpus) \<and>
      (\<forall>m < length js. \<exists>model. transition_model exact corpus ((s # vs') ! m) d = Inr model \<and>
          rng (js ! m) (map fst model) (Some (map snd model)) = Inr (vs' ! m)) \<and>
      sample_steps exact rng corpus d n js s (tab (map fst corpus) (visit_share n vs)) =
        Inr (tab (map fst corpus) (visit_share n (vs @ vs')))"
proof (induction js arbitrary: s vs)
  case Nil
  then show ?case by simp
next
  case (Cons j js)
  let ?ks = "map fst corpus"
  from Cons.prems obtain L where L: "(s, L) \<in> set corpus" by auto
  define total where "total = fcard L + length (filter (\<lambda>k. k |\<notin>| L) ?ks)"
  define b where "b = exact (exact (1 - d) / real total)"
  define model where "model = tab ?ks (tm_value exact L b d)"
  have tm: "transition_model exact corpus s d = Inr model"
    unfolding model_def b_def total_def by (rule transition_model_eq [OF dist L])
  have "total \<noteq> 0"
  proof
    assume "total = 0"
    then have "L = {||}" and "filter (\<lambda>k. k |\<notin>| L) ?ks = []" by (auto simp: total_def)
    then show False using Cons.prems by (auto simp: filter_empty_conv)
  qed
  then have "0 < b" using d by (simp add: b_def exact_def)
  then have pos: "\<forall>w \<in> set (map (tm_value exact L b d) ?ks). 0 < w"
    using tm_value_pos [OF d(1)] by simp
  have ne: "?ks \<noteq> []" using Cons.prems by auto
  have fst_model: "map fst model = ?ks" by (simp add: model_def map_fst_tab)
  have snd_model: "map snd model = map (tm_value exact L b d) ?ks"
    by (simp add: model_def tab_def comp_def)
  have "\<exists>x \<in> set ?ks. rng j ?ks (Some (map (tm_value exact L b d) ?ks)) = Inr x"
    using rng ne pos unfolding valid_rng_def by (metis length_map)
  then obtain s' where s': "s' \<in> set ?ks"
    and pick: "rng j (map fst model) (Some (map snd model)) = Inr s'"
    unfolding fst_model snd_model by blast
  have av: "add_visit exact n s' (tab ?ks (visit_share n vs)) =
      Inr (tab ?ks (visit_share n (vs @ [s'])))"
    by (simp add: add_visit_tab [OF dist s' n] exact_def visit_share_snoc)
  from Cons.IH [OF s', of "vs @ [s']"] obtain vs' where
    vs': "length vs' = length js" "set vs' \<subseteq> set ?ks"
    and chain: "\<forall>m < length js. \<exists>model. transition_model exact corpus ((s' # vs') ! m) d = Inr model \<and>
          rng (js ! m) (map fst model) (Some (map snd model)) = Inr (vs' ! m)"
    and rec: "sample_steps exact rng corpus d n js s' (tab ?ks (visit_share n (vs @ [s']))) =
        Inr (tab ?ks (visit_share n ((vs @ [s']) @ vs')))" by blast
  have run: "sample_steps exact rng corpus d n (j # js) s (tab ?ks (visit_share n vs)) =
      Inr (tab ?ks (visit_share n (vs @ (s' # vs'))))"
    unfolding sample_steps.simps tm bind_err_def sum.case pick av
    using rec by simp
  have len: "length (s' # vs') = length (j # js)" using vs'(1) by simp
  have sub: "set (s' # vs') \<subseteq> set ?ks" using vs'(2) s' by simp
  have chain': "\<forall>m < length (j # js). \<exists>model.
      transition_model exact corpus ((s # s' # vs') ! m) d = Inr model \<and>
      rng ((j # js) ! m) (map fst model) (Some (map snd model)) = Inr ((s' # vs') ! m)"
  proof (intro allI impI)
    fix m assume m: "m < length (j # js)"
    show "\<exists>model. transition_model exact corpus ((s # s' # vs') ! m) d = Inr model \<and>
      rng ((j # js) ! m) (map fst model) (Some (map snd model)) = Inr ((s' # vs') ! m)"
    proof (cases m)
      case 0
      then show ?thesis using tm pick by auto
    next
      case (Suc m')
      then have "m' < length js" using m by simp
      with chain show ?thesis unfolding Suc by simp
    qed
  qed
  from len sub chain' run show ?case by blast
qed

lemma sum_list_div: "sum_list (map (\<lambda>q. f q / c) xs) = sum_list (map f xs) / (c::real)"
  by (induction xs) (simp_all add: add_divide_distrib)

lemma sum_visit_share:
  assumes "distinct ks" and "set vs \<subseteq> set ks" and "length vs = nat n" and "1 \<le> n"
  shows "sum_list (map snd (tab ks (visit_share n vs))) = 1"
proof -
  have "sum_list (map (\<lambda>q. real (count_list vs q)) ks) = (\<Sum>q \<in> set ks. real (count_list vs q))"
    using assms(1) by (simp add: sum_list_distinct_conv_sum_set)
  also have "\<dots> = real (\<Sum>q \<in> set ks. count_list vs q)" by simp
  also have "(\<Sum>q \<in> set ks. count_list vs q) = length vs"
    using assms(2) by (simp add: sum_count_set)
  finally have cnt: "sum_list (map (\<lambda>q. real (count_list vs q)) ks) = real (length vs)" .
  have "sum_list (map snd (tab ks (visit_share n vs))) =
      sum_list (map (\<lambda>q. real (count_list vs q)) ks) / real_of_int n"
    by (simp add: tab_def comp_def visit_share_def sum_list_div)
  also have "\<dots> = 1" using assms(3,4) by (simp add: cnt)
  finally show ?thesis .
qed

lemma sample_pagerank_walk:
  assumes "valid_rng rng" and "distinct (map fst corpus)" and "corpus \<noteq> []"
    and "0 < d" and "d < 1" and "1 \<le> n"
  shows "\<exists>visits. length visits = nat n \<and> set visits \<subseteq> set (map fst corpus) \<and>
     chosen_walk exact rng corpus d visits \<and>
     sample_pagerank exact rng corpus d n = Inr (tab (map fst corpus) (visit_share n visits))"
proof -
  let ?ks = "map fst corpus"
  have ne: "?ks \<noteq> []" using assms(3) by simp
  have n0: "n \<noteq> 0" using assms(6) by simp
  from assms(1) ne obtain s where s: "s \<in> set ?ks" and pick: "rng 0 ?ks None = Inr s"
    unfolding valid_rng_def by blast
  have first: "add_visit exact n s (tab ?ks (\<lambda>_. 0)) = Inr (tab ?ks (visit_share n [s]))"
    using visit_share_snoc [of n "[]" s]
    by (simp add: add_visit_tab [OF assms(2) s n0] exact_def visit_share_def [abs_def])
  from sample_steps_walk [OF assms(1,2) less_imp_le [OF assms(4)] assms(5) n0 s,
      of "[1..<nat n]" "[s]"]
  obtain vs' where vs': "length vs' = length [1..<nat n]" "set vs' \<subseteq> set ?ks"
    and chain: "\<forall>m < length [1..<nat n]. \<exists>model.
        transition_model exact corpus ((s # vs') ! m) d = Inr model \<and>
        rng ([1..<nat n] ! m) (map fst model) (Some (map snd model)) = Inr (vs' ! m)"
    and run: "sample_steps exact rng corpus d n [1..<nat n] s (tab ?ks (visit_share n [s])) =
        Inr (tab ?ks (visit_share n ([s] @ vs')))" by blast
  let ?visits = "s # vs'"
  have len: "length ?visits = nat n" using vs'(1) assms(6) by simp
  have sub: "set ?visits \<subseteq> set ?ks" using vs'(2) s by simp
  have res: "sample_pagerank exact rng corpus d n = Inr (tab ?ks (visit_share n ?visits))"
    using run by (simp add: sample_pagerank_def init_rank_tab [OF assms(2)] pick bind_err_def first)
  have walk: "chosen_walk exact rng corpus d ?visits"
    unfolding chosen_walk_def
  proof (intro conjI allI impI)
    show "?visits \<noteq> []" by simp
    show "rng 0 ?ks None = Inr (?visits ! 0)" using pick by simp
    fix i assume i: "0 < i \<and> i < length ?visits"
    then obtain m where m: "i = Suc m" by (cases i) auto
    with i vs'(1) have ml: "m < length [1..<nat n]" by simp
    then have idx: "[1..<nat n] ! m = i" using m by simp
    from chain ml obtain model where
      "transition_model exact corpus (?visits ! m) d = Inr model"
      "rng ([1..<nat n] ! m) (map fst model) (Some (map snd model)) = Inr (vs' ! m)" by blast
    then show "\<exists>model. transition_model exact corpus (?visits ! (i - 1)) d = Inr model \<and>
        rng i (map fst model) (Some (map snd model)) = Inr (?visits ! i)"
      unfolding idx using m by auto
  qed
  from len sub walk res show ?thesis by blast
qed

lemma sample_pagerank_visits:
  assumes "valid_rng rng" and "distinct (map fst corpus)" and "corpus \<noteq> []"
    and "0 < d" and "d < 1" and "1 \<le> n"
  shows "\<exists>visits. length visits = nat n \<and> set visits \<subseteq> set (map fst corpus) \<and>
     sample_pagerank exact rng corpus d n = Inr (tab (map fst corpus) (visit_share n visits))"
  using sample_pagerank_walk [OF assms] by blast

text \<open>
  Claim C5, in exact arithmetic. For a non-empty corpus with distinct keys, a damping in
  \<open>(0, 1)\<close>, \<open>n \<ge> 1\<close> and every chooser, \<^verbatim>\<open>sample_pagerank\<close> returns a dictionary over
  the pages of the corpus. The list \<open>visits\<close> of the \<open>n\<close> pages that the calls of
  \<^verbatim>\<open>random.choices\<close> return, in the order of the calls (the first from the whole corpus,
  each later one from the transition model of the page before it), determines the result:
  the value of every page is the number of times it occurs in \<open>visits\<close> divided by \<open>n\<close>,
  and the values sum to exactly 1.
\<close>

theorem sample_pagerank_exact_sum:
  assumes "valid_rng rng" and "distinct (map fst corpus)" and "corpus \<noteq> []"
    and "0 < d" and "d < 1" and "1 \<le> n"
  shows "\<exists>visits. length visits = nat n \<and> set visits \<subseteq> set (map fst corpus) \<and>
     chosen_walk exact rng corpus d visits \<and>
     sample_pagerank exact rng corpus d n =
       Inr (tab (map fst corpus) (\<lambda>q. real (count_list visits q) / real_of_int n)) \<and>
     sum_list (map snd (tab (map fst corpus) (\<lambda>q. real (count_list visits q) / real_of_int n))) = 1"
proof -
  from sample_pagerank_walk [OF assms] obtain visits where
    len: "length visits = nat n" and sub: "set visits \<subseteq> set (map fst corpus)"
    and walk: "chosen_walk exact rng corpus d visits"
    and res: "sample_pagerank exact rng corpus d n =
      Inr (tab (map fst corpus) (visit_share n visits))" by blast
  have sum: "sum_list (map snd (tab (map fst corpus) (visit_share n visits))) = 1"
    by (rule sum_visit_share [OF assms(2) sub len assms(6)])
  show ?thesis
    using len sub walk res sum unfolding visit_share_def [abs_def] by blast
qed

theorem sample_pagerank_exact_sum_witness:
  "valid_rng round_robin \<and> distinct (map fst [(''A'', {|''B''|}), (''B'', {||})]) \<and>
   [(''A'', {|''B''|}), (''B'', {||})] \<noteq> ([] :: corpus) \<and> (0::real) < 85 / 100 \<and> (85::real) / 100 < 1 \<and>
   (1::int) \<le> 4 \<and>
   chosen_walk exact round_robin [(''A'', {|''B''|}), (''B'', {||})] (85 / 100)
     [''A'', ''B'', ''A'', ''B''] \<and>
   sample_pagerank exact round_robin [(''A'', {|''B''|}), (''B'', {||})] (85 / 100) 4 =
     Inr [(''A'', 1 / 2), (''B'', 1 / 2)] \<and>
   sum_list (map snd [(''A'', 1 / 2), (''B'', 1 / 2 :: real)]) = 1"
proof -
  let ?G = "[(''A'', {|''B''|}), (''B'', {||})]"
  have v: "valid_rng round_robin" by (rule valid_round_robin)
  have d: "distinct (map fst ?G)" by simp
  have ne: "?G \<noteq> []" by simp
  have lo: "(0::real) < 85 / 100" and hi: "(85::real) / 100 < 1" by simp_all
  have n: "(1::int) \<le> 4" by simp
  from sample_pagerank_exact_sum [OF v d ne lo hi n] obtain visits where
    len: "length visits = nat 4" and walk: "chosen_walk exact round_robin ?G (85 / 100) visits"
    and res: "sample_pagerank exact round_robin ?G (85 / 100) 4 =
       Inr (tab (map fst ?G) (\<lambda>q. real (count_list visits q) / real_of_int 4))"
    and sum: "sum_list (map snd (tab (map fst ?G)
        (\<lambda>q. real (count_list visits q) / real_of_int 4))) = 1" by blast
  have tA: "transition_model exact ?G ''A'' (85 / 100) = Inr [(''A'', 3 / 40), (''B'', 37 / 40)]"
    by code_simp
  have tB: "transition_model exact ?G ''B'' (85 / 100) = Inr [(''A'', 3 / 40), (''B'', 3 / 40)]"
    by code_simp
  have w: "chosen_walk exact round_robin ?G (85 / 100) [''A'', ''B'', ''A'', ''B'']"
    unfolding chosen_walk_def
  proof (intro conjI allI impI)
    show "[''A'', ''B'', ''A'', ''B''] \<noteq> ([] :: page list)" by simp
    show "round_robin 0 (map fst ?G) None = Inr ([''A'', ''B'', ''A'', ''B''] ! 0)"
      by (simp add: round_robin_def)
    fix i :: nat assume "0 < i \<and> i < length [''A'', ''B'', ''A'', ''B'']"
    then have "i = 1 \<or> i = 2 \<or> i = 3" by (simp add: less_Suc_eq numeral_eq_Suc) linarith
    then consider "i = 1" | "i = 2" | "i = 3" by blast
    then show "\<exists>model. transition_model exact ?G ([''A'', ''B'', ''A'', ''B''] ! (i - 1)) (85 / 100)
          = Inr model \<and>
        round_robin i (map fst model) (Some (map snd model)) = Inr ([''A'', ''B'', ''A'', ''B''] ! i)"
    proof cases
      case 1
      then show ?thesis unfolding 1 using tA by (simp add: round_robin_def)
    next
      case 2
      have "round_robin 2 [''A'', ''B''] ws = Inr ''A''" for ws by code_simp
      then show ?thesis unfolding 2 using tB by simp
    next
      case 3
      have "round_robin 3 [''A'', ''B''] ws = Inr ''B''" for ws by code_simp
      moreover have "[''A'', ''B'', ''A'', ''B''] ! (3 - 1) = ''A''"
        and "[''A'', ''B'', ''A'', ''B''] ! 3 = ''B''" by code_simp+
      ultimately show ?thesis unfolding 3 using tA by simp
    qed
  qed
  have "visits = [''A'', ''B'', ''A'', ''B'']"
    by (rule chosen_walk_unique [OF walk w]) (simp add: len)
  with res sum have "sample_pagerank exact round_robin ?G (85 / 100) 4 =
     Inr [(''A'', 1 / 2), (''B'', 1 / 2)]"
    and "sum_list (map snd [(''A'', 1 / 2), (''B'', 1 / 2 :: real)]) = 1"
    by (simp_all add: tab_def)
  with v d ne lo hi n w show ?thesis by (intro conjI)
qed

text \<open>
  Claim C5 as stated fails for the floating-point numbers of the program: the code adds
  the rounded quotient \<^verbatim>\<open>1 / n\<close> once per visit, each sum rounded. On the corpus of one page
  \<^verbatim>\<open>{"A": set()}\<close> with \<^verbatim>\<open>n = 10\<close> all ten visits go to \<^verbatim>\<open>A\<close>, and the result is
  \<open>1 - 1 / 2 ^ 53\<close> (Python prints \<^verbatim>\<open>0.9999999999999999\<close>), not 1.
\<close>

theorem sample_pagerank_binary64_sum:
  "sample_pagerank binary64 first_page [(''A'', {||})] (binary64 (85 / 100)) 10 =
     Inr [(''A'', 9007199254740991 / 9007199254740992)] \<and>
   sum_list (map snd [(''A'', 9007199254740991 / 9007199254740992 :: real)]) \<noteq> 1"
  by code_simp




section \<open>One sweep of the iteration\<close>

lemma sigma_loop_tab:
  assumes dist: "distinct (map fst corpus)"
  shows "set xs \<subseteq> set corpus \<Longrightarrow>
    sigma_loop rd (map fst xs) corpus key (tab (map fst corpus) r) s =
      Inr (fold (\<lambda>(q, links) s. if key |\<in>| links then rd (s + rd (r q / real (fcard links))) else s)
        xs s)"
proof (induction xs arbitrary: s)
  case Nil
  then show ?case by simp
next
  case (Cons x xs)
  obtain q L where x: "x = (q, L)" by (cases x)
  have mem: "(q, L) \<in> set corpus" and sub: "set xs \<subseteq> set corpus" using Cons.prems x by auto
  have gl: "getitem corpus q = Inr L" by (rule getitem_corpus [OF dist mem])
  have qk: "q \<in> set (map fst corpus)" using mem by force
  have gr: "getitem (tab (map fst corpus) r) q = Inr (r q)" by (rule getitem_tab [OF qk])
  show ?case
  proof (cases "key |\<in>| L")
    case True
    then have "fcard L \<noteq> 0" by auto
    then have dv: "fdiv rd (r q) (real (fcard L)) = Inr (rd (r q / real (fcard L)))"
      by (simp add: fdiv_def)
    show ?thesis using True by (simp add: x gl gr dv bind_err_def Cons.IH [OF sub])
  next
    case False
    then show ?thesis by (simp add: x gl bind_err_def Cons.IH [OF sub])
  qed
qed

lemma sigma_loop_value:
  assumes "distinct (map fst corpus)"
  shows "sigma_loop rd (map fst corpus) corpus key (tab (map fst corpus) r) 0 =
     Inr (sigma_value rd corpus r key)"
  unfolding sigma_value_def by (rule sigma_loop_tab [OF assms subset_refl])

lemma sweep_loop_tab:
  assumes dist: "distinct (map fst corpus)"
  shows "set keys \<subseteq> set (map fst corpus) \<Longrightarrow>
    sweep_loop rd keys corpus d (tab (map fst corpus) r) c =
      Inr (case sweep_fun rd corpus d keys (r, c) of (r', c') \<Rightarrow> (tab (map fst corpus) r', c'))"
proof (induction keys arbitrary: r c)
  case Nil
  then show ?case by (simp add: sweep_fun_def)
next
  case (Cons key keys)
  let ?ks = "map fst corpus"
  have key: "key \<in> set ?ks" and sub: "set keys \<subseteq> set ?ks" using Cons.prems by auto
  then have "corpus \<noteq> []" by auto
  then have dv: "fdiv rd (rd (1 - d)) (real (length corpus)) =
      Inr (rd (rd (1 - d) / real (length corpus)))" by (simp add: fdiv_def)
  let ?new = "new_rank rd corpus d r key"
  let ?c = "if \<bar>rd (r key - ?new)\<bar> < threshold rd then c + 1 else c"
  have step: "sweep_loop rd (key # keys) corpus d (tab ?ks r) c =
      sweep_loop rd keys corpus d (tab ?ks (r(key := ?new))) ?c"
    unfolding sweep_loop.simps dv bind_err_def sum.case sigma_loop_value [OF dist]
      getitem_tab [OF key] Let_def update_tab [OF dist key] new_rank_def ..
  have fun_step: "sweep_fun rd corpus d (key # keys) (r, c) =
      sweep_fun rd corpus d keys (r(key := ?new), ?c)"
    by (simp add: sweep_fun_def Let_def)
  show ?case unfolding step fun_step by (rule Cons.IH [OF sub])
qed

lemma sweep_tab:
  assumes "distinct (map fst corpus)"
  shows "sweep rd corpus d (tab (map fst corpus) r) =
     Inr (case sweep_fun rd corpus d (map fst corpus) (r, 0) of
            (r', c') \<Rightarrow> (tab (map fst corpus) r', c'))"
  unfolding sweep_def by (rule sweep_loop_tab [OF assms subset_refl])

lemma init_ranks_fold:
  "N \<noteq> 0 \<Longrightarrow> init_ranks rd keys N ranks =
     Inr (fold (\<lambda>key. AList.update key (rd (1 / real N))) keys ranks)"
  by (induction keys arbitrary: ranks) (simp_all add: fdiv_def bind_err_def)

lemma init_ranks_tab:
  assumes "distinct (map fst corpus)"
  shows "init_ranks rd (map fst corpus) (length corpus) [] =
     Inr (tab (map fst corpus) (\<lambda>_. rd (1 / real (length corpus))))"
proof (cases "corpus = []")
  case True
  then show ?thesis by (simp add: tab_def)
next
  case False
  then have "length corpus \<noteq> 0" by simp
  from init_ranks_fold [OF this] fold_update_const [of "[]" "map fst corpus"] assms
  show ?thesis by simp
qed

lemma sweep_fun_Cons:
  "sweep_fun rd corpus d (k # keys) (r, c) =
     sweep_fun rd corpus d keys
       (r(k := new_rank rd corpus d r k),
        if \<bar>rd (r k - new_rank rd corpus d r k)\<bar> < threshold rd then c + 1 else c)"
  by (simp add: sweep_fun_def Let_def)

lemma sweep_fun_Nil: "sweep_fun rd corpus d [] (r, c) = (r, c)"
  by (simp add: sweep_fun_def)

lemma sweep_fun_other:
  "q \<notin> set keys \<Longrightarrow> fst (sweep_fun rd corpus d keys (r, c)) q = r q"
  by (induction keys arbitrary: r c) (simp_all add: sweep_fun_Nil sweep_fun_Cons)

lemma sweep_fun_inplace:
  "distinct keys \<Longrightarrow> i < length keys \<Longrightarrow>
   fst (sweep_fun rd corpus d keys (r, c)) (keys ! i) =
     new_rank rd corpus d
       (\<lambda>q. if q \<in> set (take i keys) then fst (sweep_fun rd corpus d keys (r, c)) q else r q)
       (keys ! i)"
proof (induction keys arbitrary: r c i)
  case Nil
  then show ?case by simp
next
  case (Cons k keys)
  let ?new = "new_rank rd corpus d r k"
  let ?r1 = "r(k := ?new)"
  let ?c1 = "if \<bar>rd (r k - ?new)\<bar> < threshold rd then c + 1 else c"
  let ?R = "fst (sweep_fun rd corpus d keys (?r1, ?c1))"
  have R: "fst (sweep_fun rd corpus d (k # keys) (r, c)) = ?R" by (simp add: sweep_fun_Cons)
  have kn: "k \<notin> set keys" and dk: "distinct keys" using Cons.prems(1) by auto
  have Rk: "?R k = ?new" using sweep_fun_other [OF kn, of rd corpus d ?r1 ?c1] by simp
  show ?case
  proof (cases i)
    case 0
    then show ?thesis by (simp add: R Rk)
  next
    case (Suc j)
    then have j: "j < length keys" using Cons.prems(2) by simp
    have mix: "(\<lambda>q. if q \<in> set (take (Suc j) (k # keys)) then ?R q else r q) =
        (\<lambda>q. if q \<in> set (take j keys) then ?R q else ?r1 q)"
    proof (rule ext)
      fix q
      have "k \<notin> set (take j keys)" using kn by (auto dest: in_set_takeD)
      then show "(if q \<in> set (take (Suc j) (k # keys)) then ?R q else r q) =
          (if q \<in> set (take j keys) then ?R q else ?r1 q)"
        using Rk by auto
    qed
    have "?R (keys ! j) =
        new_rank rd corpus d (\<lambda>q. if q \<in> set (take j keys) then ?R q else ?r1 q) (keys ! j)"
      by (rule Cons.IH [OF dk j])
    then show ?thesis by (simp only: R Suc mix nth_Cons_Suc)
  qed
qed

lemma sweep_fun_count:
  "distinct keys \<Longrightarrow>
   snd (sweep_fun rd corpus d keys (r, c)) =
     c + length (filter (\<lambda>k. \<bar>rd (r k - fst (sweep_fun rd corpus d keys (r, c)) k)\<bar> < threshold rd)
           keys)"
proof (induction keys arbitrary: r c)
  case Nil
  then show ?case by (simp add: sweep_fun_Nil)
next
  case (Cons k keys)
  define new where "new = new_rank rd corpus d r k"
  define r1 where "r1 = r(k := new)"
  define c1 where "c1 = (if \<bar>rd (r k - new)\<bar> < threshold rd then c + 1 else c)"
  define R where "R = fst (sweep_fun rd corpus d keys (r1, c1))"
  have kn: "k \<notin> set keys" and dk: "distinct keys" using Cons.prems(1) by auto
  have step: "sweep_fun rd corpus d (k # keys) (r, c) = sweep_fun rd corpus d keys (r1, c1)"
    by (simp add: sweep_fun_Cons new_def r1_def c1_def)
  have Rk: "R k = new"
    unfolding R_def using sweep_fun_other [OF kn, of rd corpus d r1 c1] by (simp add: r1_def)
  have flt: "filter (\<lambda>k'. \<bar>rd (r1 k' - R k')\<bar> < threshold rd) keys =
      filter (\<lambda>k'. \<bar>rd (r k' - R k')\<bar> < threshold rd) keys"
    using kn by (intro filter_cong) (auto simp: r1_def)
  have ih: "snd (sweep_fun rd corpus d keys (r1, c1)) =
      c1 + length (filter (\<lambda>k'. \<bar>rd (r1 k' - R k')\<bar> < threshold rd) keys)"
    unfolding R_def by (rule Cons.IH [OF dk])
  have c1: "c1 = c + (if \<bar>rd (r k - R k)\<bar> < threshold rd then 1 else 0)"
    by (simp add: c1_def Rk)
  have "snd (sweep_fun rd corpus d keys (r1, c1)) =
      c1 + length (filter (\<lambda>k'. \<bar>rd (r k' - R k')\<bar> < threshold rd) keys)"
    using ih by (simp only: flt)
  also have "\<dots> = c + length (filter (\<lambda>k'. \<bar>rd (r k' - R k')\<bar> < threshold rd) (k # keys))"
    by (simp add: c1)
  finally show ?case unfolding step R_def .
qed

lemma length_filter_all: "length (filter P xs) = length xs \<longleftrightarrow> (\<forall>x \<in> set xs. P x)"
proof (induction xs)
  case Nil
  then show ?case by simp
next
  case (Cons x xs)
  have "length (filter P xs) \<noteq> Suc (length xs)"
    using length_filter_le [of P xs] by linarith
  then show ?case using Cons.IH by auto
qed

lemma sweep_fun_converged:
  assumes "distinct keys"
  shows "snd (sweep_fun rd corpus d keys (r, 0)) = length keys \<longleftrightarrow>
     (\<forall>k \<in> set keys. \<bar>rd (r k - fst (sweep_fun rd corpus d keys (r, 0)) k)\<bar> < threshold rd)"
  by (simp add: sweep_fun_count [OF assms] length_filter_all)

lemma fold_sigma_exact:
  "fold (\<lambda>(q, links) s. if key |\<in>| links then exact (s + exact (r q / real (fcard links))) else s)
     xs s =
   s + sum_list (map (\<lambda>(q, links). if key |\<in>| links then r q / real (fcard links) else 0) xs)"
  by (induction xs arbitrary: s) (auto simp: exact_def)

lemma new_rank_exact: "new_rank exact corpus d r p = recurrence corpus d r p"
  by (simp add: new_rank_def recurrence_def incoming_def sigma_value_def fold_sigma_exact)
     (simp add: exact_def)

lemma sweep_tab_pair:
  assumes "distinct (map fst corpus)"
  shows "sweep rd corpus d (tab (map fst corpus) r) =
     Inr (tab (map fst corpus) (fst (sweep_fun rd corpus d (map fst corpus) (r, 0))),
          snd (sweep_fun rd corpus d (map fst corpus) (r, 0)))"
  by (simp add: sweep_tab [OF assms] case_prod_beta)

text \<open>
  Claim C1, amended. In exact arithmetic, one sweep of \<^verbatim>\<open>iterate_pagerank\<close> over a
  dictionary of ranks with the keys of the corpus succeeds, and it updates in place: the
  new rank of the page at position \<open>i\<close> is the recurrence evaluated over the ranks in which
  the pages before position \<open>i\<close> already have their new values and the other pages still
  have their old ones.
\<close>

theorem sweep_in_place:
  assumes "distinct (map fst corpus)"
  shows "\<exists>r' c. sweep exact corpus d (tab (map fst corpus) r) = Inr (tab (map fst corpus) r', c) \<and>
     (\<forall>i < length corpus. r' (map fst corpus ! i) =
        recurrence corpus d (\<lambda>q. if q \<in> set (take i (map fst corpus)) then r' q else r q)
          (map fst corpus ! i))"
proof -
  let ?ks = "map fst corpus"
  let ?r' = "fst (sweep_fun exact corpus d ?ks (r, 0))"
  have "\<forall>i < length corpus. ?r' (?ks ! i) =
      recurrence corpus d (\<lambda>q. if q \<in> set (take i ?ks) then ?r' q else r q) (?ks ! i)"
    using sweep_fun_inplace [OF assms, of _ exact corpus d r 0]
    by (simp add: new_rank_exact)
  with sweep_tab_pair [OF assms, of exact d r] show ?thesis by blast
qed

theorem sweep_in_place_witness:
  "distinct (map fst [(''A'', {|''B''|}), (''B'', {|''A''|}), (''C'', {|''A''|})]) \<and>
   (\<exists>r' c. sweep exact [(''A'', {|''B''|}), (''B'', {|''A''|}), (''C'', {|''A''|})] (85 / 100)
        [(''A'', 1 / 3), (''B'', 1 / 3), (''C'', 1 / 3)] =
      Inr (tab [''A'', ''B'', ''C''] r', c) \<and>
      r' ''B'' = recurrence [(''A'', {|''B''|}), (''B'', {|''A''|}), (''C'', {|''A''|})] (85 / 100)
        (\<lambda>q. if q = ''A'' then r' q else 1 / 3) ''B'')"
proof -
  let ?G = "[(''A'', {|''B''|}), (''B'', {|''A''|}), (''C'', {|''A''|})]"
  have d: "distinct (map fst ?G)" by simp
  from sweep_in_place [OF d, of "85 / 100" "\<lambda>_. 1 / 3"] obtain r' c where
    s: "sweep exact ?G (85 / 100) (tab (map fst ?G) (\<lambda>_. 1 / 3)) = Inr (tab (map fst ?G) r', c)"
    and i: "\<forall>i < length ?G. r' (map fst ?G ! i) =
        recurrence ?G (85 / 100) (\<lambda>q. if q \<in> set (take i (map fst ?G)) then r' q else 1 / 3)
          (map fst ?G ! i)" by blast
  have "r' (map fst ?G ! 1) =
        recurrence ?G (85 / 100) (\<lambda>q. if q \<in> set (take 1 (map fst ?G)) then r' q else 1 / 3)
          (map fst ?G ! 1)" using i [rule_format, of 1] by simp
  then have "r' ''B'' = recurrence ?G (85 / 100) (\<lambda>q. if q = ''A'' then r' q else 1 / 3) ''B''"
    by simp
  moreover from s have "sweep exact ?G (85 / 100) [(''A'', 1 / 3), (''B'', 1 / 3), (''C'', 1 / 3)] =
      Inr (tab [''A'', ''B'', ''C''] r', c)" by (simp add: tab_def)
  ultimately show ?thesis using d by blast
qed

text \<open>
  Claim C1 as stated fails: the first sweep of \<^verbatim>\<open>iterate_pagerank\<close> on the corpus
  \<^verbatim>\<open>{"A": {"B"}, "B": {"A"}, "C": {"A"}}\<close> with damping \<^verbatim>\<open>0.85\<close> gives \<^verbatim>\<open>B\<close> the rank
  \<open>689 / 1200\<close>, computed from the new rank of \<^verbatim>\<open>A\<close>; the synchronous sweep gives \<open>1 / 3\<close>.
\<close>

theorem sweep_not_synchronous:
  "sweep exact [(''A'', {|''B''|}), (''B'', {|''A''|}), (''C'', {|''A''|})] (85 / 100)
     [(''A'', 1 / 3), (''B'', 1 / 3), (''C'', 1 / 3)] =
     Inr ([(''A'', 37 / 60), (''B'', 689 / 1200), (''C'', 1 / 20)], 0) \<and>
   sync_sweep [(''A'', {|''B''|}), (''B'', {|''A''|}), (''C'', {|''A''|})] (85 / 100)
     [(''A'', 1 / 3), (''B'', 1 / 3), (''C'', 1 / 3)] =
     [(''A'', 37 / 60), (''B'', 1 / 3), (''C'', 1 / 20)]"
  by code_simp

section \<open>A sweep is a contraction\<close>

text \<open>
  Two facts about finite sums, for a matrix \<open>M\<close> of non-negative weights: if every column
  sums to at most 1, an in-place sweep shrinks a weighted sum of absolute values by the
  factor \<open>d\<close>; if every column sums to 1, the values after a sweep that changed every entry
  by less than \<open>eps\<close> sum to 1 up to \<open>d * N * eps / (1 - d)\<close>.
\<close>

lemma gs_contraction:
  fixes M :: "nat \<Rightarrow> nat \<Rightarrow> real" and e e' :: "nat \<Rightarrow> real"
  assumes M0: "\<And>i j. 0 \<le> M i j"
    and col: "\<And>j. j < N \<Longrightarrow> (\<Sum>i<N. M i j) \<le> 1"
    and d0: "0 \<le> d" and d1: "d \<le> 1"
    and step: "\<And>i. i < N \<Longrightarrow> e' i = d * (\<Sum>j<N. M i j * (if j < i then e' j else e j))"
  shows "(\<Sum>j<N. (1 - d * sum (\<lambda>i. M i j) ({..<N} \<inter> {i. j < i})) * \<bar>e' j\<bar>)
       \<le> d * (\<Sum>j<N. (1 - d * sum (\<lambda>i. M i j) ({..<N} \<inter> {i. j < i})) * \<bar>e j\<bar>)"
proof -
  define a where "a j = sum (\<lambda>i. M i j) ({..<N} \<inter> {i. j < i})" for j
  define b where "b j = sum (\<lambda>i. M i j) ({..<N} \<inter> - {i. j < i})" for j
  have a0: "0 \<le> a j" for j unfolding a_def by (intro sum_nonneg M0)
  have b0: "0 \<le> b j" for j unfolding b_def by (intro sum_nonneg M0)
  have ab: "a j + b j \<le> 1" if "j < N" for j
  proof -
    have "(\<Sum>i<N. M i j) = (\<Sum>i<N. if j < i then M i j else M i j)" by simp
    also have "\<dots> = a j + b j" unfolding a_def b_def by (rule sum.If_cases) simp
    finally show ?thesis using col [OF that] by simp
  qed
  have abs_step: "\<bar>e' i\<bar> \<le> d * (\<Sum>j<N. M i j * (if j < i then \<bar>e' j\<bar> else \<bar>e j\<bar>))" if "i < N" for i
  proof -
    have "\<bar>e' i\<bar> = d * \<bar>\<Sum>j<N. M i j * (if j < i then e' j else e j)\<bar>"
      using step [OF that] d0 by (simp add: abs_mult)
    also have "\<dots> \<le> d * (\<Sum>j<N. \<bar>M i j * (if j < i then e' j else e j)\<bar>)"
      by (intro mult_left_mono sum_abs d0)
    also have "(\<Sum>j<N. \<bar>M i j * (if j < i then e' j else e j)\<bar>) =
        (\<Sum>j<N. M i j * (if j < i then \<bar>e' j\<bar> else \<bar>e j\<bar>))"
      by (intro sum.cong refl) (simp add: abs_mult M0)
    finally show ?thesis .
  qed
  have inner: "(\<Sum>i<N. M i j * (if j < i then \<bar>e' j\<bar> else \<bar>e j\<bar>)) = a j * \<bar>e' j\<bar> + b j * \<bar>e j\<bar>" for j
  proof -
    have "(\<Sum>i<N. M i j * (if j < i then \<bar>e' j\<bar> else \<bar>e j\<bar>)) =
        (\<Sum>i<N. if j < i then M i j * \<bar>e' j\<bar> else M i j * \<bar>e j\<bar>)"
      by (intro sum.cong refl) simp
    also have "\<dots> = sum (\<lambda>i. M i j * \<bar>e' j\<bar>) ({..<N} \<inter> {i. j < i})
        + sum (\<lambda>i. M i j * \<bar>e j\<bar>) ({..<N} \<inter> - {i. j < i})"
      by (rule sum.If_cases) simp
    also have "\<dots> = a j * \<bar>e' j\<bar> + b j * \<bar>e j\<bar>"
      by (simp add: a_def b_def sum_distrib_right)
    finally show ?thesis .
  qed
  have "(\<Sum>i<N. \<bar>e' i\<bar>) \<le> (\<Sum>i<N. d * (\<Sum>j<N. M i j * (if j < i then \<bar>e' j\<bar> else \<bar>e j\<bar>)))"
    by (intro sum_mono abs_step) simp
  also have "\<dots> = d * (\<Sum>i<N. \<Sum>j<N. M i j * (if j < i then \<bar>e' j\<bar> else \<bar>e j\<bar>))"
    by (simp add: sum_distrib_left)
  also have "(\<Sum>i<N. \<Sum>j<N. M i j * (if j < i then \<bar>e' j\<bar> else \<bar>e j\<bar>)) =
      (\<Sum>j<N. \<Sum>i<N. M i j * (if j < i then \<bar>e' j\<bar> else \<bar>e j\<bar>))"
    by (rule sum.swap)
  also have "\<dots> = (\<Sum>j<N. a j * \<bar>e' j\<bar> + b j * \<bar>e j\<bar>)"
    by (simp only: inner)
  also have "\<dots> = (\<Sum>j<N. a j * \<bar>e' j\<bar>) + (\<Sum>j<N. b j * \<bar>e j\<bar>)"
    by (rule sum.distrib)
  finally have main: "(\<Sum>i<N. \<bar>e' i\<bar>) \<le> d * ((\<Sum>j<N. a j * \<bar>e' j\<bar>) + (\<Sum>j<N. b j * \<bar>e j\<bar>))" .
  have "(\<Sum>j<N. (1 - d * a j) * \<bar>e' j\<bar>) = (\<Sum>j<N. \<bar>e' j\<bar>) - d * (\<Sum>j<N. a j * \<bar>e' j\<bar>)"
    by (simp add: algebra_simps sum_subtractf sum_distrib_left)
  also have "\<dots> \<le> d * (\<Sum>j<N. b j * \<bar>e j\<bar>)"
    using main by (simp add: algebra_simps)
  also have "\<dots> \<le> d * (\<Sum>j<N. (1 - d * a j) * \<bar>e j\<bar>)"
  proof (intro mult_left_mono sum_mono mult_right_mono d0)
    fix j assume "j \<in> {..<N}"
    then have "a j + b j \<le> 1" using ab by simp
    moreover have "d * a j \<le> a j" using mult_right_mono [OF d1 a0 [of j]] by simp
    ultimately show "b j \<le> 1 - d * a j" by linarith
  qed simp
  finally show ?thesis unfolding a_def .
qed

lemma gs_sum_bound:
  fixes M :: "nat \<Rightarrow> nat \<Rightarrow> real" and u u' :: "nat \<Rightarrow> real"
  assumes M0: "\<And>i j. 0 \<le> M i j"
    and col: "\<And>j. j < N \<Longrightarrow> (\<Sum>i<N. M i j) = 1"
    and d0: "0 \<le> d" and d1: "d < 1" and N: "0 < N"
    and step: "\<And>i. i < N \<Longrightarrow>
        u' i = (1 - d) / real N + d * (\<Sum>j<N. M i j * (if j < i then u' j else u j))"
    and delta: "\<And>j. j < N \<Longrightarrow> \<bar>u j - u' j\<bar> < eps"
  shows "\<bar>(\<Sum>j<N. u' j) - 1\<bar> \<le> d * real N * eps / (1 - d)"
proof -
  define a where "a j = sum (\<lambda>i. M i j) ({..<N} \<inter> {i. j < i})" for j
  define b where "b j = sum (\<lambda>i. M i j) ({..<N} \<inter> - {i. j < i})" for j
  have b0: "0 \<le> b j" for j unfolding b_def by (intro sum_nonneg M0)
  have a0: "0 \<le> a j" for j unfolding a_def by (intro sum_nonneg M0)
  have ab: "a j + b j = 1" if "j < N" for j
  proof -
    have "(\<Sum>i<N. M i j) = (\<Sum>i<N. if j < i then M i j else M i j)" by simp
    also have "\<dots> = a j + b j" unfolding a_def b_def by (rule sum.If_cases) simp
    finally show ?thesis using col [OF that] by simp
  qed
  have b1: "b j \<le> 1" if "j < N" for j using ab [OF that] a0 [of j] by linarith
  have inner: "(\<Sum>i<N. M i j * (if j < i then u' j else u j)) = a j * u' j + b j * u j" for j
  proof -
    have "(\<Sum>i<N. M i j * (if j < i then u' j else u j)) =
        (\<Sum>i<N. if j < i then M i j * u' j else M i j * u j)"
      by (intro sum.cong refl) simp
    also have "\<dots> = sum (\<lambda>i. M i j * u' j) ({..<N} \<inter> {i. j < i})
        + sum (\<lambda>i. M i j * u j) ({..<N} \<inter> - {i. j < i})"
      by (rule sum.If_cases) simp
    also have "\<dots> = a j * u' j + b j * u j"
      by (simp add: a_def b_def sum_distrib_right)
    finally show ?thesis .
  qed
  have "(\<Sum>i<N. u' i) =
      (\<Sum>i<N. (1 - d) / real N + d * (\<Sum>j<N. M i j * (if j < i then u' j else u j)))"
    by (intro sum.cong refl) (simp add: step)
  also have "\<dots> = (1 - d) + d * (\<Sum>i<N. \<Sum>j<N. M i j * (if j < i then u' j else u j))"
    using N by (simp add: sum.distrib sum_distrib_left)
  also have "(\<Sum>i<N. \<Sum>j<N. M i j * (if j < i then u' j else u j)) =
      (\<Sum>j<N. \<Sum>i<N. M i j * (if j < i then u' j else u j))"
    by (rule sum.swap)
  also have "\<dots> = (\<Sum>j<N. a j * u' j + b j * u j)" by (simp only: inner)
  also have "\<dots> = (\<Sum>j<N. u' j - b j * (u' j - u j))"
  proof (intro sum.cong refl)
    fix j assume "j \<in> {..<N}"
    then have e: "a j + b j = 1" using ab [of j] by simp
    have "a j * u' j + b j * u j = (a j + b j) * u' j - b j * (u' j - u j)"
      by (simp add: algebra_simps)
    then show "a j * u' j + b j * u j = u' j - b j * (u' j - u j)" by (simp only: e mult_1)
  qed
  also have "\<dots> = (\<Sum>j<N. u' j) - (\<Sum>j<N. b j * (u' j - u j))" by (rule sum_subtractf)
  finally have eq: "(1 - d) * ((\<Sum>j<N. u' j) - 1) = - d * (\<Sum>j<N. b j * (u' j - u j))"
    by (simp add: algebra_simps)
  have "\<bar>\<Sum>j<N. b j * (u' j - u j)\<bar> \<le> (\<Sum>j<N. \<bar>b j * (u' j - u j)\<bar>)" by (rule sum_abs)
  also have "\<dots> \<le> (\<Sum>j<N. eps)"
  proof (rule sum_mono)
    fix j assume "j \<in> {..<N}"
    then have j: "j < N" by simp
    have "\<bar>b j * (u' j - u j)\<bar> = b j * \<bar>u j - u' j\<bar>"
      using b0 [of j] by (simp add: abs_mult abs_minus_commute)
    also have "\<dots> \<le> 1 * \<bar>u j - u' j\<bar>" by (rule mult_right_mono [OF b1 [OF j]]) simp
    also have "\<dots> \<le> eps" using delta [OF j] by simp
    finally show "\<bar>b j * (u' j - u j)\<bar> \<le> eps" .
  qed
  also have "\<dots> = real N * eps" by simp
  finally have bnd: "\<bar>\<Sum>j<N. b j * (u' j - u j)\<bar> \<le> real N * eps" .
  have "(1 - d) * \<bar>(\<Sum>j<N. u' j) - 1\<bar> = \<bar>(1 - d) * ((\<Sum>j<N. u' j) - 1)\<bar>"
    using d1 by (simp add: abs_mult)
  also have "\<dots> = d * \<bar>\<Sum>j<N. b j * (u' j - u j)\<bar>"
    unfolding eq using d0 by (simp add: abs_mult)
  also have "\<dots> \<le> d * (real N * eps)" by (rule mult_left_mono [OF bnd d0])
  finally have "(1 - d) * \<bar>(\<Sum>j<N. u' j) - 1\<bar> \<le> d * real N * eps" by (simp add: mult.assoc)
  then show ?thesis using d1 by (simp add: pos_le_divide_eq mult.commute)
qed

lemma link_weight_nonneg: "0 \<le> link_weight corpus i j"
  by (simp add: link_weight_def)

lemma incoming_index:
  "incoming corpus r (fst (corpus ! i)) =
     (\<Sum>j<length corpus. link_weight corpus i j * r (fst (corpus ! j)))"
proof -
  let ?g = "\<lambda>(q, links). if fst (corpus ! i) |\<in>| links then r q / real (fcard links) else 0"
  have "incoming corpus r (fst (corpus ! i)) = sum_list (map ?g corpus)"
    by (simp add: incoming_def)
  also have "\<dots> = (\<Sum>j = 0..<length (map ?g corpus). map ?g corpus ! j)"
    by (rule sum_list_sum_nth)
  also have "\<dots> = (\<Sum>j<length corpus. ?g (corpus ! j))"
    by (simp add: atLeast0LessThan)
  also have "\<dots> = (\<Sum>j<length corpus. link_weight corpus i j * r (fst (corpus ! j)))"
    by (intro sum.cong refl) (simp add: link_weight_def case_prod_beta)
  finally show ?thesis .
qed

lemma link_weight_column:
  assumes dist: "distinct (map fst corpus)" and j: "j < length corpus"
  shows "(\<Sum>i<length corpus. link_weight corpus i j) \<le> 1"
proof -
  let ?N = "length corpus"
  let ?L = "snd (corpus ! j)"
  let ?A = "{..<?N} \<inter> {i. fst (corpus ! i) |\<in>| ?L}"
  have "(\<Sum>i<?N. link_weight corpus i j) =
      (\<Sum>i<?N. if fst (corpus ! i) |\<in>| ?L then 1 / real (fcard ?L) else 0)"
    by (simp add: link_weight_def)
  also have "\<dots> = sum (\<lambda>i. 1 / real (fcard ?L)) ?A + sum (\<lambda>i. 0) ({..<?N} \<inter> - {i. fst (corpus ! i) |\<in>| ?L})"
    by (rule sum.If_cases) simp
  also have "\<dots> = real (card ?A) / real (fcard ?L)" by simp
  finally have eq: "(\<Sum>i<?N. link_weight corpus i j) = real (card ?A) / real (fcard ?L)" .
  have inj: "inj_on (\<lambda>i. fst (corpus ! i)) ?A"
  proof (rule inj_onI)
    fix x y assume "x \<in> ?A" "y \<in> ?A" and e: "fst (corpus ! x) = fst (corpus ! y)"
    then have x: "x < length (map fst corpus)" and y: "y < length (map fst corpus)" by auto
    from x y e have "map fst corpus ! x = map fst corpus ! y" by simp
    then show "x = y" by (simp only: nth_eq_iff_index_eq [OF dist x y])
  qed
  have "card ?A \<le> card (fset ?L)"
    by (rule card_inj_on_le [OF inj]) auto
  then have le: "card ?A \<le> fcard ?L" by (simp add: fcard.rep_eq)
  show ?thesis
  proof (cases "fcard ?L = 0")
    case True
    then show ?thesis by (simp add: eq)
  next
    case False
    then have "0 < fcard ?L" by (rule neq0_conv [THEN iffD1])
    then have pos: "0 < real (fcard ?L)" by (simp only: of_nat_0_less_iff)
    have "real (card ?A) \<le> real (fcard ?L)" using le by simp
    then have "real (card ?A) / real (fcard ?L) \<le> 1"
      using pos by (simp only: divide_le_eq_1_pos)
    then show ?thesis by (simp only: eq)
  qed
qed

lemma take_index:
  assumes "distinct ks" and "i < length ks" and "j < length ks"
  shows "ks ! j \<in> set (take i ks) \<longleftrightarrow> j < i"
proof
  assume "ks ! j \<in> set (take i ks)"
  then obtain m where m: "m < length (take i ks)" and e: "take i ks ! m = ks ! j"
    by (auto simp: in_set_conv_nth)
  from m have mi: "m < i" and ml: "m < length ks" by auto
  from e mi have "ks ! m = ks ! j" by simp
  then have "m = j" using assms(1,3) ml by (simp add: nth_eq_iff_index_eq)
  with mi show "j < i" by simp
next
  assume "j < i"
  then have "take i ks ! j = ks ! j" and "j < length (take i ks)" using assms(3) by auto
  then show "ks ! j \<in> set (take i ks)" by (metis nth_mem)
qed

lemma gs_sweep_index:
  assumes dist: "distinct (map fst corpus)" and i: "i < length corpus"
  shows "gs_sweep exact corpus d r (fst (corpus ! i)) =
     (1 - d) / real (length corpus) +
     d * (\<Sum>j<length corpus. link_weight corpus i j *
            (if j < i then gs_sweep exact corpus d r (fst (corpus ! j)) else r (fst (corpus ! j))))"
proof -
  let ?ks = "map fst corpus"
  let ?mix = "\<lambda>q. if q \<in> set (take i ?ks) then gs_sweep exact corpus d r q else r q"
  have i': "i < length ?ks" using i by simp
  have ki: "?ks ! i = fst (corpus ! i)" using i by simp
  have "gs_sweep exact corpus d r (?ks ! i) = recurrence corpus d ?mix (?ks ! i)"
    unfolding gs_sweep_def using sweep_fun_inplace [OF dist i', of exact corpus d r 0]
    by (simp only: new_rank_exact)
  then have "gs_sweep exact corpus d r (fst (corpus ! i)) =
      (1 - d) / real (length corpus) + d * incoming corpus ?mix (fst (corpus ! i))"
    by (simp only: ki recurrence_def)
  also have "incoming corpus ?mix (fst (corpus ! i)) =
      (\<Sum>j<length corpus. link_weight corpus i j * ?mix (fst (corpus ! j)))"
    by (rule incoming_index)
  also have "\<dots> = (\<Sum>j<length corpus. link_weight corpus i j *
            (if j < i then gs_sweep exact corpus d r (fst (corpus ! j)) else r (fst (corpus ! j))))"
  proof (intro sum.cong refl)
    fix j assume "j \<in> {..<length corpus}"
    then have j: "j < length ?ks" by simp
    then have "?ks ! j = fst (corpus ! j)" by simp
    with take_index [OF dist i' j]
    show "link_weight corpus i j * ?mix (fst (corpus ! j)) =
        link_weight corpus i j *
          (if j < i then gs_sweep exact corpus d r (fst (corpus ! j)) else r (fst (corpus ! j)))"
      by simp
  qed
  finally show ?thesis .
qed

lemma gs_sweep_diff:
  assumes dist: "distinct (map fst corpus)" and i: "i < length corpus"
  shows "gs_sweep exact corpus d r (fst (corpus ! i)) - gs_sweep exact corpus d s (fst (corpus ! i)) =
     d * (\<Sum>j<length corpus. link_weight corpus i j *
            (if j < i
             then gs_sweep exact corpus d r (fst (corpus ! j)) - gs_sweep exact corpus d s (fst (corpus ! j))
             else r (fst (corpus ! j)) - s (fst (corpus ! j))))"
proof -
  have "(\<Sum>j<length corpus. link_weight corpus i j *
            (if j < i then gs_sweep exact corpus d r (fst (corpus ! j)) else r (fst (corpus ! j))))
      - (\<Sum>j<length corpus. link_weight corpus i j *
            (if j < i then gs_sweep exact corpus d s (fst (corpus ! j)) else s (fst (corpus ! j))))
      = (\<Sum>j<length corpus. link_weight corpus i j *
            (if j < i
             then gs_sweep exact corpus d r (fst (corpus ! j)) - gs_sweep exact corpus d s (fst (corpus ! j))
             else r (fst (corpus ! j)) - s (fst (corpus ! j))))"
    unfolding sum_subtractf [symmetric] by (intro sum.cong refl) (simp add: algebra_simps)
  then show ?thesis
    unfolding gs_sweep_index [OF dist i] by (simp add: algebra_simps)
qed

lemma gs_sweep_contracts:
  assumes dist: "distinct (map fst corpus)" and d0: "0 \<le> d" and d1: "d \<le> 1"
  shows "wnorm corpus d (\<lambda>j. gs_sweep exact corpus d r (fst (corpus ! j)) - gs_sweep exact corpus d s (fst (corpus ! j)))
     \<le> d * wnorm corpus d (\<lambda>j. r (fst (corpus ! j)) - s (fst (corpus ! j)))"
  unfolding wnorm_def
  by (rule gs_contraction [where M = "link_weight corpus", OF link_weight_nonneg
        link_weight_column [OF dist] d0 d1 gs_sweep_diff [OF dist]])

lemma wnorm_nonneg_weight:
  assumes dist: "distinct (map fst corpus)" and d0: "0 \<le> d" and j: "j < length corpus"
  shows "1 - d \<le> 1 - d * sum (\<lambda>i. link_weight corpus i j) ({..<length corpus} \<inter> {i. j < i})"
proof -
  have "sum (\<lambda>i. link_weight corpus i j) ({..<length corpus} \<inter> {i. j < i})
      \<le> (\<Sum>i<length corpus. link_weight corpus i j)"
    by (rule sum_mono2) (auto simp: link_weight_nonneg)
  also have "\<dots> \<le> 1" by (rule link_weight_column [OF dist j])
  finally have "d * sum (\<lambda>i. link_weight corpus i j) ({..<length corpus} \<inter> {i. j < i}) \<le> d * 1"
    by (rule mult_left_mono [OF _ d0])
  then show ?thesis by simp
qed

lemma wnorm_lower:
  assumes dist: "distinct (map fst corpus)" and d0: "0 \<le> d" and d1: "d \<le> 1"
    and j: "j < length corpus"
  shows "(1 - d) * \<bar>f j\<bar> \<le> wnorm corpus d f"
proof -
  let ?w = "\<lambda>j. 1 - d * sum (\<lambda>i. link_weight corpus i j) ({..<length corpus} \<inter> {i. j < i})"
  have w: "1 - d \<le> ?w m" if "m < length corpus" for m
    by (rule wnorm_nonneg_weight [OF dist d0 that])
  have "(1 - d) * \<bar>f j\<bar> \<le> ?w j * \<bar>f j\<bar>"
    by (rule mult_right_mono [OF w [OF j]]) simp
  also have "\<dots> \<le> (\<Sum>m<length corpus. ?w m * \<bar>f m\<bar>)"
  proof (rule member_le_sum)
    show "j \<in> {..<length corpus}" using j by simp
    show "finite {..<length corpus}" by simp
    fix m assume "m \<in> {..<length corpus} - {j}"
    then have "m < length corpus" by simp
    from w [OF this] d1 have "0 \<le> ?w m" by linarith
    then show "0 \<le> ?w m * \<bar>f m\<bar>" by simp
  qed
  finally show ?thesis by (simp only: wnorm_def)
qed

lemma wnorm_iterates:
  assumes dist: "distinct (map fst corpus)" and d0: "0 \<le> d" and d1: "d \<le> 1"
  shows "wnorm corpus d (\<lambda>j. (gs_sweep exact corpus d ^^ Suc t) r (fst (corpus ! j))
                           - (gs_sweep exact corpus d ^^ t) r (fst (corpus ! j)))
     \<le> d ^ t * wnorm corpus d (\<lambda>j. gs_sweep exact corpus d r (fst (corpus ! j)) - r (fst (corpus ! j)))"
proof (induction t)
  case 0
  then show ?case by simp
next
  case (Suc t)
  let ?S = "gs_sweep exact corpus d"
  have "wnorm corpus d (\<lambda>j. (?S ^^ Suc (Suc t)) r (fst (corpus ! j)) - (?S ^^ Suc t) r (fst (corpus ! j)))
      = wnorm corpus d (\<lambda>j. ?S ((?S ^^ Suc t) r) (fst (corpus ! j)) - ?S ((?S ^^ t) r) (fst (corpus ! j)))"
    by simp
  also have "\<dots> \<le> d * wnorm corpus d (\<lambda>j. (?S ^^ Suc t) r (fst (corpus ! j)) - (?S ^^ t) r (fst (corpus ! j)))"
    by (rule gs_sweep_contracts [OF dist d0 d1])
  also have "\<dots> \<le> d * (d ^ t * wnorm corpus d (\<lambda>j. ?S r (fst (corpus ! j)) - r (fst (corpus ! j))))"
    by (rule mult_left_mono [OF Suc.IH d0])
  finally show ?case by (simp add: mult.assoc)
qed

lemma gs_sweep_settles:
  assumes dist: "distinct (map fst corpus)" and d0: "0 \<le> d" and d1: "d < 1" and eps: "0 < eps"
  shows "\<exists>t. \<forall>j < length corpus.
     \<bar>(gs_sweep exact corpus d ^^ t) r (fst (corpus ! j))
        - (gs_sweep exact corpus d ^^ Suc t) r (fst (corpus ! j))\<bar> < eps"
proof -
  let ?S = "gs_sweep exact corpus d"
  define C where "C = wnorm corpus d (\<lambda>j. ?S r (fst (corpus ! j)) - r (fst (corpus ! j)))"
  have d1': "d \<le> 1" using d1 by simp
  have C0: "0 \<le> C"
  proof (cases "length corpus")
    case 0
    then show ?thesis by (simp add: C_def wnorm_def)
  next
    case (Suc n)
    then have "(0::nat) < length corpus" by simp
    from wnorm_lower [OF dist d0 d1' this, of "\<lambda>j. ?S r (fst (corpus ! j)) - r (fst (corpus ! j))"]
    have "(1 - d) * \<bar>?S r (fst (corpus ! 0)) - r (fst (corpus ! 0))\<bar> \<le> C" by (simp only: C_def)
    moreover have "0 \<le> (1 - d) * \<bar>?S r (fst (corpus ! 0)) - r (fst (corpus ! 0))\<bar>"
      using d1 by simp
    ultimately show ?thesis by linarith
  qed
  have "0 < eps * (1 - d) / (C + 1)" using eps d1 C0 by simp
  from real_arch_pow_inv [OF this d1] obtain t where t: "d ^ t < eps * (1 - d) / (C + 1)" by blast
  have bound: "d ^ t * C < eps * (1 - d)"
  proof -
    have "d ^ t * C \<le> d ^ t * (C + 1)" using d0 by (simp add: mult_left_mono)
    also have "\<dots> < eps * (1 - d)" using t C0 by (simp add: pos_less_divide_eq)
    finally show ?thesis .
  qed
  have "\<forall>j < length corpus. \<bar>(?S ^^ t) r (fst (corpus ! j)) - (?S ^^ Suc t) r (fst (corpus ! j))\<bar> < eps"
  proof (intro allI impI)
    fix j assume j: "j < length corpus"
    let ?x = "\<bar>(?S ^^ Suc t) r (fst (corpus ! j)) - (?S ^^ t) r (fst (corpus ! j))\<bar>"
    have "(1 - d) * ?x \<le> wnorm corpus d (\<lambda>j. (?S ^^ Suc t) r (fst (corpus ! j))
                           - (?S ^^ t) r (fst (corpus ! j)))"
      by (rule wnorm_lower [OF dist d0 d1' j])
    also have "\<dots> \<le> d ^ t * C" unfolding C_def by (rule wnorm_iterates [OF dist d0 d1'])
    also have "\<dots> < eps * (1 - d)" by (rule bound)
    finally have "(1 - d) * ?x < (1 - d) * eps" by (simp add: mult.commute)
    then have "?x < eps" using d1 by simp
    then show "\<bar>(?S ^^ t) r (fst (corpus ! j)) - (?S ^^ Suc t) r (fst (corpus ! j))\<bar> < eps"
      by (simp only: abs_minus_commute)
  qed
  then show ?thesis by blast
qed

section \<open>The loop of the iterative solver\<close>

lemma sweep_gs:
  assumes "distinct (map fst corpus)"
  shows "sweep rd corpus d (tab (map fst corpus) r) =
     Inr (tab (map fst corpus) (gs_sweep rd corpus d r),
          snd (sweep_fun rd corpus d (map fst corpus) (r, 0)))"
  unfolding gs_sweep_def by (rule sweep_tab_pair [OF assms])

lemma changes_below_tab:
  "changes_below rd (tab ks r) (tab ks r') \<longleftrightarrow> (\<forall>k \<in> set ks. \<bar>rd (r k - r' k)\<bar> < threshold rd)"
  by (simp add: changes_below_def tab_def list_all2_map1 list_all2_map2 list_all2_same)

lemma sweep_count_iff:
  assumes "distinct (map fst corpus)"
  shows "snd (sweep_fun rd corpus d (map fst corpus) (r, 0)) = length corpus \<longleftrightarrow>
     changes_below rd (tab (map fst corpus) r) (tab (map fst corpus) (gs_sweep rd corpus d r))"
  using sweep_fun_converged [OF assms, of rd corpus d r]
  by (simp add: changes_below_tab gs_sweep_def)

lemma after_sweeps_tab:
  assumes "distinct (map fst corpus)"
  shows "after_sweeps rd corpus d k (tab (map fst corpus) r) =
     Inr (tab (map fst corpus) ((gs_sweep rd corpus d ^^ k) r))"
proof (induction k arbitrary: r)
  case 0
  then show ?case by simp
next
  case (Suc k)
  show ?case
    by (simp add: sweep_gs [OF assms] bind_err_def Suc.IH funpow_swap1)
qed

lemma iterate_loop_stops:
  assumes dist: "distinct (map fst corpus)"
  shows "changes_below rd (tab (map fst corpus) ((gs_sweep rd corpus d ^^ t) r))
           (tab (map fst corpus) ((gs_sweep rd corpus d ^^ Suc t) r)) \<Longrightarrow>
    \<exists>k. iterate_loop rd corpus d (tab (map fst corpus) r) =
           Some (Inr (tab (map fst corpus) ((gs_sweep rd corpus d ^^ Suc k) r))) \<and>
        changes_below rd (tab (map fst corpus) ((gs_sweep rd corpus d ^^ k) r))
           (tab (map fst corpus) ((gs_sweep rd corpus d ^^ Suc k) r)) \<and>
        (\<forall>j < k. \<not> changes_below rd (tab (map fst corpus) ((gs_sweep rd corpus d ^^ j) r))
           (tab (map fst corpus) ((gs_sweep rd corpus d ^^ Suc j) r)))"
proof (induction t arbitrary: r)
  case 0
  let ?ks = "map fst corpus"
  from 0 have cb: "changes_below rd (tab ?ks r) (tab ?ks (gs_sweep rd corpus d r))" by simp
  then have cnt: "snd (sweep_fun rd corpus d ?ks (r, 0)) = length corpus"
    by (simp only: sweep_count_iff [OF dist])
  have "iterate_loop rd corpus d (tab ?ks r) = Some (Inr (tab ?ks (gs_sweep rd corpus d r)))"
    by (subst iterate_loop.simps) (simp add: sweep_gs [OF dist] cnt)
  with cb show ?case by (intro exI [of _ 0]) simp
next
  case (Suc t)
  let ?ks = "map fst corpus"
  let ?S = "gs_sweep rd corpus d"
  show ?case
  proof (cases "changes_below rd (tab ?ks r) (tab ?ks (?S r))")
    case True
    then have cnt: "snd (sweep_fun rd corpus d ?ks (r, 0)) = length corpus"
      by (simp only: sweep_count_iff [OF dist])
    have "iterate_loop rd corpus d (tab ?ks r) = Some (Inr (tab ?ks (?S r)))"
      by (subst iterate_loop.simps) (simp add: sweep_gs [OF dist] cnt)
    with True show ?thesis by (intro exI [of _ 0]) simp
  next
    case False
    then have cnt: "snd (sweep_fun rd corpus d ?ks (r, 0)) \<noteq> length corpus"
      by (simp only: sweep_count_iff [OF dist] not_False_eq_True)
    have loop: "iterate_loop rd corpus d (tab ?ks r) = iterate_loop rd corpus d (tab ?ks (?S r))"
      by (subst iterate_loop.simps) (simp add: sweep_gs [OF dist] cnt)
    have shift: "(?S ^^ Suc m) r = (?S ^^ m) (?S r)" for m by (simp add: funpow_swap1)
    from Suc.prems have "changes_below rd (tab ?ks ((?S ^^ t) (?S r))) (tab ?ks ((?S ^^ Suc t) (?S r)))"
      by (simp only: shift)
    from Suc.IH [OF this] obtain k where
      k1: "iterate_loop rd corpus d (tab ?ks (?S r)) = Some (Inr (tab ?ks ((?S ^^ Suc k) (?S r))))"
      and k2: "changes_below rd (tab ?ks ((?S ^^ k) (?S r))) (tab ?ks ((?S ^^ Suc k) (?S r)))"
      and k3: "\<forall>j < k. \<not> changes_below rd (tab ?ks ((?S ^^ j) (?S r)))
           (tab ?ks ((?S ^^ Suc j) (?S r)))" by blast
    have a: "iterate_loop rd corpus d (tab ?ks r) = Some (Inr (tab ?ks ((?S ^^ Suc (Suc k)) r)))"
      using k1 loop by (simp only: shift)
    have b: "changes_below rd (tab ?ks ((?S ^^ Suc k) r)) (tab ?ks ((?S ^^ Suc (Suc k)) r))"
      using k2 by (simp only: shift)
    have c: "\<forall>j < Suc k. \<not> changes_below rd (tab ?ks ((?S ^^ j) r)) (tab ?ks ((?S ^^ Suc j) r))"
    proof (intro allI impI)
      fix j assume j: "j < Suc k"
      show "\<not> changes_below rd (tab ?ks ((?S ^^ j) r)) (tab ?ks ((?S ^^ Suc j) r))"
      proof (cases j)
        case 0
        then show ?thesis using False by simp
      next
        case (Suc j')
        then have "j' < k" using j by simp
        with k3 have n: "\<not> changes_below rd (tab ?ks ((?S ^^ j') (?S r)))
           (tab ?ks ((?S ^^ Suc j') (?S r)))" by blast
        have e1: "(?S ^^ j) r = (?S ^^ j') (?S r)" unfolding Suc by (rule shift)
        have e2: "(?S ^^ Suc j) r = (?S ^^ Suc j') (?S r)" unfolding Suc by (rule shift)
        show ?thesis unfolding e1 e2 by (rule n)
      qed
    qed
    from a b c show ?thesis by blast
  qed
qed

lemma iterate_pagerank_loop:
  assumes "distinct (map fst corpus)"
  shows "iterate_pagerank rd corpus d =
     iterate_loop rd corpus d (tab (map fst corpus) (\<lambda>_. rd (1 / real (length corpus))))"
  by (simp add: iterate_pagerank_def init_ranks_tab [OF assms])

lemma iterate_pagerank_result:
  assumes dist: "distinct (map fst corpus)" and d0: "0 \<le> d" and d1: "d < 1"
  shows "\<exists>k. iterate_pagerank exact corpus d =
        Some (Inr (tab (map fst corpus)
          ((gs_sweep exact corpus d ^^ Suc k) (\<lambda>_. 1 / real (length corpus))))) \<and>
     changes_below exact
       (tab (map fst corpus) ((gs_sweep exact corpus d ^^ k) (\<lambda>_. 1 / real (length corpus))))
       (tab (map fst corpus) ((gs_sweep exact corpus d ^^ Suc k) (\<lambda>_. 1 / real (length corpus)))) \<and>
     (\<forall>j < k. \<not> changes_below exact
       (tab (map fst corpus) ((gs_sweep exact corpus d ^^ j) (\<lambda>_. 1 / real (length corpus))))
       (tab (map fst corpus) ((gs_sweep exact corpus d ^^ Suc j) (\<lambda>_. 1 / real (length corpus)))))"
proof -
  let ?ks = "map fst corpus"
  let ?S = "gs_sweep exact corpus d"
  let ?r0 = "\<lambda>_::page. 1 / real (length corpus)"
  have start: "iterate_pagerank exact corpus d = iterate_loop exact corpus d (tab ?ks ?r0)"
    by (simp add: iterate_pagerank_loop [OF dist] exact_def)
  have "0 < threshold exact" by (simp add: threshold_def exact_def)
  from gs_sweep_settles [OF dist d0 d1 this, of ?r0]
  obtain t where t: "\<forall>j < length corpus.
     \<bar>(?S ^^ t) ?r0 (fst (corpus ! j)) - (?S ^^ Suc t) ?r0 (fst (corpus ! j))\<bar> < threshold exact"
    by blast
  have "\<forall>p \<in> set ?ks. \<bar>exact ((?S ^^ t) ?r0 p - (?S ^^ Suc t) ?r0 p)\<bar> < threshold exact"
  proof
    fix p assume "p \<in> set ?ks"
    then obtain j where j: "j < length corpus" and p: "p = fst (corpus ! j)"
      by (auto simp: in_set_conv_nth)
    from t j have "\<bar>(?S ^^ t) ?r0 (fst (corpus ! j)) - (?S ^^ Suc t) ?r0 (fst (corpus ! j))\<bar>
        < threshold exact" by blast
    then show "\<bar>exact ((?S ^^ t) ?r0 p - (?S ^^ Suc t) ?r0 p)\<bar> < threshold exact"
      unfolding p exact_def [of "_ - _"] .
  qed
  then have "changes_below exact (tab ?ks ((?S ^^ t) ?r0)) (tab ?ks ((?S ^^ Suc t) ?r0))"
    by (simp only: changes_below_tab)
  from iterate_loop_stops [OF dist this] show ?thesis by (simp only: start)
qed

lemma iterate_loop_returns:
  assumes run: "iterate_loop rd corpus d ranks = Some res"
  shows "distinct (map fst corpus) \<longrightarrow> (\<forall>r. ranks = tab (map fst corpus) r \<longrightarrow>
     (\<exists>t. changes_below rd (tab (map fst corpus) ((gs_sweep rd corpus d ^^ t) r))
            (tab (map fst corpus) ((gs_sweep rd corpus d ^^ Suc t) r))))"
proof (rule iterate_loop.raw_induct [where P = "\<lambda>rd corpus d ranks res.
    distinct (map fst corpus) \<longrightarrow> (\<forall>r. ranks = tab (map fst corpus) r \<longrightarrow>
     (\<exists>t. changes_below rd (tab (map fst corpus) ((gs_sweep rd corpus d ^^ t) r))
            (tab (map fst corpus) ((gs_sweep rd corpus d ^^ Suc t) r))))", OF _ run])
  fix loop :: "rounding \<Rightarrow> corpus \<Rightarrow> real \<Rightarrow> rankmap \<Rightarrow> (error + rankmap) option"
  fix rd corpus d ranks res
  assume IH: "\<And>rd corpus d ranks res. loop rd corpus d ranks = Some res \<Longrightarrow>
      distinct (map fst corpus) \<longrightarrow> (\<forall>r. ranks = tab (map fst corpus) r \<longrightarrow>
       (\<exists>t. changes_below rd (tab (map fst corpus) ((gs_sweep rd corpus d ^^ t) r))
            (tab (map fst corpus) ((gs_sweep rd corpus d ^^ Suc t) r))))"
  assume step: "(case sweep rd corpus d ranks of
        Inl e \<Rightarrow> Some (Inl e)
      | Inr (ranks', count) \<Rightarrow>
          if count = length corpus then Some (Inr ranks') else loop rd corpus d ranks') = Some res"
  show "distinct (map fst corpus) \<longrightarrow> (\<forall>r. ranks = tab (map fst corpus) r \<longrightarrow>
       (\<exists>t. changes_below rd (tab (map fst corpus) ((gs_sweep rd corpus d ^^ t) r))
            (tab (map fst corpus) ((gs_sweep rd corpus d ^^ Suc t) r))))"
  proof (intro impI allI)
    fix r
    assume dist: "distinct (map fst corpus)" and r: "ranks = tab (map fst corpus) r"
    let ?ks = "map fst corpus"
    let ?S = "gs_sweep rd corpus d"
    let ?c = "snd (sweep_fun rd corpus d ?ks (r, 0))"
    from step have eq: "(if ?c = length corpus then Some (Inr (tab ?ks (?S r)))
        else loop rd corpus d (tab ?ks (?S r))) = Some res"
      by (simp add: r sweep_gs [OF dist])
    show "\<exists>t. changes_below rd (tab ?ks ((?S ^^ t) r)) (tab ?ks ((?S ^^ Suc t) r))"
    proof (cases "?c = length corpus")
      case True
      then have "changes_below rd (tab ?ks r) (tab ?ks (?S r))"
        by (simp only: sweep_count_iff [OF dist])
      then have "changes_below rd (tab ?ks ((?S ^^ 0) r)) (tab ?ks ((?S ^^ Suc 0) r))" by simp
      then show ?thesis by blast
    next
      case False
      with eq have "loop rd corpus d (tab ?ks (?S r)) = Some res" by simp
      from IH [OF this] dist obtain t where
        t: "changes_below rd (tab ?ks ((?S ^^ t) (?S r))) (tab ?ks ((?S ^^ Suc t) (?S r)))"
        by blast
      have shift: "(?S ^^ Suc m) r = (?S ^^ m) (?S r)" for m by (simp add: funpow_swap1)
      have "changes_below rd (tab ?ks ((?S ^^ Suc t) r)) (tab ?ks ((?S ^^ Suc (Suc t)) r))"
        unfolding shift [of t] shift [of "Suc t"] by (rule t)
      then show ?thesis by blast
    qed
  qed
qed

lemma iterate_pagerank_cases:
  assumes dist: "distinct (map fst corpus)"
  shows "(\<forall>res. iterate_pagerank rd corpus d = Some res \<longrightarrow>
        (\<exists>k prev ranks. res = Inr ranks \<and>
           after_sweeps rd corpus d k
             (tab (map fst corpus) (\<lambda>_. rd (1 / real (length corpus)))) = Inr prev \<and>
           sweep rd corpus d prev = Inr (ranks, length corpus) \<and>
           changes_below rd prev ranks \<and>
           (\<forall>j < k. \<exists>p r c.
              after_sweeps rd corpus d j
                (tab (map fst corpus) (\<lambda>_. rd (1 / real (length corpus)))) = Inr p \<and>
              sweep rd corpus d p = Inr (r, c) \<and> \<not> changes_below rd p r))) \<and>
     (iterate_pagerank rd corpus d = None \<longleftrightarrow>
        (\<forall>k. \<exists>p r c.
           after_sweeps rd corpus d k
             (tab (map fst corpus) (\<lambda>_. rd (1 / real (length corpus)))) = Inr p \<and>
           sweep rd corpus d p = Inr (r, c) \<and> \<not> changes_below rd p r))"
proof -
  let ?ks = "map fst corpus"
  let ?S = "gs_sweep rd corpus d"
  let ?r0 = "\<lambda>_::page. rd (1 / real (length corpus))"
  let ?conv = "\<lambda>t. changes_below rd (tab ?ks ((?S ^^ t) ?r0)) (tab ?ks ((?S ^^ Suc t) ?r0))"
  let ?bad = "\<lambda>k. \<exists>p r c. after_sweeps rd corpus d k (tab ?ks ?r0) = Inr p \<and>
           sweep rd corpus d p = Inr (r, c) \<and> \<not> changes_below rd p r"
  have start: "iterate_pagerank rd corpus d = iterate_loop rd corpus d (tab ?ks ?r0)"
    by (rule iterate_pagerank_loop [OF dist])
  have sw: "sweep rd corpus d (tab ?ks ((?S ^^ m) ?r0)) =
      Inr (tab ?ks ((?S ^^ Suc m) ?r0),
           snd (sweep_fun rd corpus d ?ks ((?S ^^ m) ?r0, 0)))" for m
    by (simp add: sweep_gs [OF dist])
  have af: "after_sweeps rd corpus d m (tab ?ks ?r0) = Inr (tab ?ks ((?S ^^ m) ?r0))" for m
    by (rule after_sweeps_tab [OF dist])
  have bad: "?bad k \<longleftrightarrow> \<not> ?conv k" for k
  proof
    assume "?bad k"
    then obtain p r c where p: "after_sweeps rd corpus d k (tab ?ks ?r0) = Inr p"
      and r: "sweep rd corpus d p = Inr (r, c)" and n: "\<not> changes_below rd p r" by blast
    from p have p': "p = tab ?ks ((?S ^^ k) ?r0)" by (simp only: af sum.inject)
    from r have "r = tab ?ks ((?S ^^ Suc k) ?r0)"
      by (simp only: p' sw sum.inject prod.inject)
    with n p' show "\<not> ?conv k" by simp
  next
    assume "\<not> ?conv k"
    with af [of k] sw [of k] show "?bad k" by blast
  qed
  have stops: "\<exists>k. iterate_pagerank rd corpus d = Some (Inr (tab ?ks ((?S ^^ Suc k) ?r0))) \<and>
      ?conv k \<and> (\<forall>j < k. \<not> ?conv j)" if "?conv t" for t
    using iterate_loop_stops [OF dist that] by (simp only: start)
  have returns: "\<exists>t. ?conv t" if "iterate_pagerank rd corpus d = Some res" for res
  proof -
    from that have "iterate_loop rd corpus d (tab ?ks ?r0) = Some res" by (simp only: start)
    from iterate_loop_returns [OF this] dist show ?thesis by blast
  qed
  have 1: "\<forall>res. iterate_pagerank rd corpus d = Some res \<longrightarrow>
        (\<exists>k prev ranks. res = Inr ranks \<and>
           after_sweeps rd corpus d k (tab ?ks ?r0) = Inr prev \<and>
           sweep rd corpus d prev = Inr (ranks, length corpus) \<and>
           changes_below rd prev ranks \<and> (\<forall>j < k. ?bad j))"
  proof (intro allI impI)
    fix res assume run: "iterate_pagerank rd corpus d = Some res"
    from returns [OF run] obtain t where "?conv t" by blast
    from stops [OF this] obtain k where
      k1: "iterate_pagerank rd corpus d = Some (Inr (tab ?ks ((?S ^^ Suc k) ?r0)))"
      and k2: "?conv k" and k3: "\<forall>j < k. \<not> ?conv j" by blast
    define ranks where "ranks = tab ?ks ((?S ^^ Suc k) ?r0)"
    from k1 run have res: "res = Inr ranks" by (simp add: ranks_def)
    have ranks: "ranks = tab ?ks ((?S ^^ Suc k) ?r0)" by (rule ranks_def)
    have cnt: "snd (sweep_fun rd corpus d ?ks ((?S ^^ k) ?r0, 0)) = length corpus"
      using k2 by (simp add: sweep_count_iff [OF dist])
    have a: "after_sweeps rd corpus d k (tab ?ks ?r0) = Inr (tab ?ks ((?S ^^ k) ?r0))"
      by (rule af)
    have b: "sweep rd corpus d (tab ?ks ((?S ^^ k) ?r0)) = Inr (ranks, length corpus)"
      using sw [of k] cnt ranks by simp
    have c: "changes_below rd (tab ?ks ((?S ^^ k) ?r0)) ranks" using k2 ranks by simp
    have e: "\<forall>j < k. ?bad j" using k3 bad by blast
    from res a b c e show "\<exists>k prev ranks. res = Inr ranks \<and>
           after_sweeps rd corpus d k (tab ?ks ?r0) = Inr prev \<and>
           sweep rd corpus d prev = Inr (ranks, length corpus) \<and>
           changes_below rd prev ranks \<and> (\<forall>j < k. ?bad j)" by blast
  qed
  have 2: "iterate_pagerank rd corpus d = None \<longleftrightarrow> (\<forall>k. ?bad k)"
  proof
    assume none: "iterate_pagerank rd corpus d = None"
    show "\<forall>k. ?bad k"
    proof
      fix k
      show "?bad k"
      proof (rule ccontr)
        assume "\<not> ?bad k"
        then have "?conv k" using bad by blast
        from stops [OF this] none show False by simp
      qed
    qed
  next
    assume all: "\<forall>k. ?bad k"
    show "iterate_pagerank rd corpus d = None"
    proof (cases "iterate_pagerank rd corpus d")
      case None
      then show ?thesis .
    next
      case (Some res)
      from returns [OF Some] obtain t where "?conv t" by blast
      with all bad show ?thesis by blast
    qed
  qed
  from 1 2 show ?thesis by (rule conjI)
qed

text \<open>
  Claim C4, amended. \<^verbatim>\<open>iterate_pagerank\<close> has no bound on the number of sweeps and
  returns the ranks alone. For a non-empty corpus with distinct keys and a damping in
  \<open>(0, 1)\<close>:

  \<^item> in exact arithmetic it terminates, and it returns the ranks of the first sweep in which
    every page changes by less than the threshold \<open>0.0005\<close>: sweep number \<open>k + 1\<close> has that
    property and no earlier sweep has;

  \<^item> under every rounding operator, the floating-point numbers of the program among them,
    whenever it returns, it returns no error but the ranks of the first such sweep;

  \<^item> under every rounding operator, it runs forever exactly when no sweep has that property.

  That the last case occurs with the floating-point numbers of the program is the lemma
  \<open>iterate_pagerank_binary64_cycle\<close> below.
\<close>

theorem iterate_pagerank_terminates:
  assumes "distinct (map fst corpus)" and "corpus \<noteq> []" and "0 < d" and "d < 1"
  shows "(\<exists>k prev ranks.
       iterate_pagerank exact corpus d = Some (Inr ranks) \<and>
       after_sweeps exact corpus d k (tab (map fst corpus) (\<lambda>_. 1 / real (length corpus))) = Inr prev \<and>
       sweep exact corpus d prev = Inr (ranks, length corpus) \<and>
       changes_below exact prev ranks \<and>
       (\<forall>j < k. \<exists>p r c.
          after_sweeps exact corpus d j (tab (map fst corpus) (\<lambda>_. 1 / real (length corpus))) = Inr p \<and>
          sweep exact corpus d p = Inr (r, c) \<and> \<not> changes_below exact p r)) \<and>
     (\<forall>rd res. iterate_pagerank rd corpus d = Some res \<longrightarrow>
        (\<exists>k prev ranks. res = Inr ranks \<and>
           after_sweeps rd corpus d k
             (tab (map fst corpus) (\<lambda>_. rd (1 / real (length corpus)))) = Inr prev \<and>
           sweep rd corpus d prev = Inr (ranks, length corpus) \<and>
           changes_below rd prev ranks \<and>
           (\<forall>j < k. \<exists>p r c.
              after_sweeps rd corpus d j
                (tab (map fst corpus) (\<lambda>_. rd (1 / real (length corpus)))) = Inr p \<and>
              sweep rd corpus d p = Inr (r, c) \<and> \<not> changes_below rd p r))) \<and>
     (\<forall>rd. iterate_pagerank rd corpus d = None \<longleftrightarrow>
        (\<forall>k. \<exists>p r c.
           after_sweeps rd corpus d k
             (tab (map fst corpus) (\<lambda>_. rd (1 / real (length corpus)))) = Inr p \<and>
           sweep rd corpus d p = Inr (r, c) \<and> \<not> changes_below rd p r))"
proof (intro conjI allI)
  let ?ks = "map fst corpus"
  let ?S = "gs_sweep exact corpus d"
  let ?r0 = "\<lambda>_::page. 1 / real (length corpus)"
  have dist: "distinct ?ks" by (rule assms(1))
  from iterate_pagerank_result [OF dist less_imp_le [OF assms(3)] assms(4)] obtain k where
    k1: "iterate_pagerank exact corpus d = Some (Inr (tab ?ks ((?S ^^ Suc k) ?r0)))"
    and k2: "changes_below exact (tab ?ks ((?S ^^ k) ?r0)) (tab ?ks ((?S ^^ Suc k) ?r0))"
    and k3: "\<forall>j < k. \<not> changes_below exact (tab ?ks ((?S ^^ j) ?r0)) (tab ?ks ((?S ^^ Suc j) ?r0))"
    by blast
  have sw: "sweep exact corpus d (tab ?ks ((?S ^^ m) ?r0)) =
      Inr (tab ?ks ((?S ^^ Suc m) ?r0),
           snd (sweep_fun exact corpus d ?ks ((?S ^^ m) ?r0, 0)))" for m
    by (simp add: sweep_gs [OF dist])
  have cnt: "snd (sweep_fun exact corpus d ?ks ((?S ^^ k) ?r0, 0)) = length corpus"
    using k2 by (simp add: sweep_count_iff [OF dist])
  let ?prev = "tab ?ks ((?S ^^ k) ?r0)"
  let ?ranks = "tab ?ks ((?S ^^ Suc k) ?r0)"
  have 2: "after_sweeps exact corpus d k (tab ?ks ?r0) = Inr ?prev"
    by (rule after_sweeps_tab [OF dist])
  have 3: "sweep exact corpus d ?prev = Inr (?ranks, length corpus)"
    using sw [of k] cnt by simp
  have 4: "\<forall>j < k. \<exists>p r c. after_sweeps exact corpus d j (tab ?ks ?r0) = Inr p \<and>
        sweep exact corpus d p = Inr (r, c) \<and> \<not> changes_below exact p r"
  proof (intro allI impI)
    fix j assume "j < k"
    with k3 have "\<not> changes_below exact (tab ?ks ((?S ^^ j) ?r0)) (tab ?ks ((?S ^^ Suc j) ?r0))"
      by blast
    with after_sweeps_tab [OF dist, of exact d j ?r0] sw [of j]
    show "\<exists>p r c. after_sweeps exact corpus d j (tab ?ks ?r0) = Inr p \<and>
        sweep exact corpus d p = Inr (r, c) \<and> \<not> changes_below exact p r"
      by blast
  qed
  from k1 2 3 k2 4 show "\<exists>k prev ranks.
       iterate_pagerank exact corpus d = Some (Inr ranks) \<and>
       after_sweeps exact corpus d k (tab ?ks ?r0) = Inr prev \<and>
       sweep exact corpus d prev = Inr (ranks, length corpus) \<and>
       changes_below exact prev ranks \<and>
       (\<forall>j < k. \<exists>p r c.
          after_sweeps exact corpus d j (tab ?ks ?r0) = Inr p \<and>
          sweep exact corpus d p = Inr (r, c) \<and> \<not> changes_below exact p r)" by blast
next
  fix rd res
  from iterate_pagerank_cases [OF assms(1), of rd d]
  show "iterate_pagerank rd corpus d = Some res \<longrightarrow>
        (\<exists>k prev ranks. res = Inr ranks \<and>
           after_sweeps rd corpus d k
             (tab (map fst corpus) (\<lambda>_. rd (1 / real (length corpus)))) = Inr prev \<and>
           sweep rd corpus d prev = Inr (ranks, length corpus) \<and>
           changes_below rd prev ranks \<and>
           (\<forall>j < k. \<exists>p r c.
              after_sweeps rd corpus d j
                (tab (map fst corpus) (\<lambda>_. rd (1 / real (length corpus)))) = Inr p \<and>
              sweep rd corpus d p = Inr (r, c) \<and> \<not> changes_below rd p r))"
    by (elim conjE allE)
next
  fix rd
  from iterate_pagerank_cases [OF assms(1), of rd d]
  show "iterate_pagerank rd corpus d = None \<longleftrightarrow>
        (\<forall>k. \<exists>p r c.
           after_sweeps rd corpus d k
             (tab (map fst corpus) (\<lambda>_. rd (1 / real (length corpus)))) = Inr p \<and>
           sweep rd corpus d p = Inr (r, c) \<and> \<not> changes_below rd p r)"
    by (elim conjE)
qed

theorem iterate_pagerank_terminates_witness:
  "distinct (map fst [(''B'', {||}), (''A'', {|''B''|})]) \<and>
   [(''B'', {||}), (''A'', {|''B''|})] \<noteq> ([] :: corpus) \<and> (0::real) < 85 / 100 \<and> (85::real) / 100 < 1 \<and>
   (\<exists>k prev ranks.
     iterate_pagerank exact [(''B'', {||}), (''A'', {|''B''|})] (85 / 100) = Some (Inr ranks) \<and>
     after_sweeps exact [(''B'', {||}), (''A'', {|''B''|})] (85 / 100) k
       (tab (map fst [(''B'', {||}), (''A'', {|''B''|})])
          (\<lambda>_. 1 / real (length [(''B'', {||}), (''A'', {|''B''|})]))) = Inr prev \<and>
     sweep exact [(''B'', {||}), (''A'', {|''B''|})] (85 / 100) prev =
       Inr (ranks, length [(''B'', {||}), (''A'', {|''B''|})]) \<and>
     changes_below exact prev ranks)"
proof -
  let ?G = "[(''B'', {||}), (''A'', {|''B''|})]"
  have d: "distinct (map fst ?G)" by simp
  have ne: "?G \<noteq> []" by simp
  have lo: "(0::real) < 85 / 100" and hi: "(85::real) / 100 < 1" by simp_all
  from iterate_pagerank_terminates [OF d ne lo hi]
  have "\<exists>k prev ranks.
     iterate_pagerank exact ?G (85 / 100) = Some (Inr ranks) \<and>
     after_sweeps exact ?G (85 / 100) k (tab (map fst ?G) (\<lambda>_. 1 / real (length ?G))) = Inr prev \<and>
     sweep exact ?G (85 / 100) prev = Inr (ranks, length ?G) \<and>
     changes_below exact prev ranks"
    by blast
  with d ne lo hi show ?thesis by (intro conjI)
qed

text \<open>
  The literal \<^verbatim>\<open>0.9999999999999999\<close> is the double \<open>1 - 1 / 2 ^ 53\<close>.
\<close>

lemma binary64_literal: "binary64 (9999999999999999 / 10000000000000000) = 1 - 1 / 2 ^ 53"
  by code_simp

text \<open>
  One iteration of the loop \<^verbatim>\<open>for key in corpus\<close>, from the values that its statements
  compute.
\<close>

lemma sweep_loop_step:
  assumes "fdiv rd (rd (1 - d)) (real (length corpus)) = Inr new0"
    and "sigma_loop rd (map fst corpus) corpus key ranks 0 = Inr sigma"
    and "getitem ranks key = Inr old"
    and "rd (new0 + rd (d * sigma)) = new"
    and "AList.update key new ranks = ranks'"
    and "(if \<bar>rd (old - new)\<bar> < threshold rd then count + 1 else count) = count'"
  shows "sweep_loop rd (key # keys) corpus d ranks count =
     sweep_loop rd keys corpus d ranks' count'"
  using assms(4-6) by (simp add: assms(1-3) bind_err_def Let_def)

text \<open>
  With the floating-point numbers of the program the loop need not end. On the corpus
  \<^verbatim>\<open>{"A": {"C"}, "B": {"A"}, "C": {"B"}, "D": {"A"}}\<close> with the damping
  \<^verbatim>\<open>0.9999999999999999\<close> the first sweep turns the ranks \<open>(1/4, 1/4, 1/4, 1/4)\<close> into
  \<open>(1/2, 1/4, 1/2, 1 / 2 ^ 55)\<close>, the next one into \<open>(1/4, 1/2, 1/4, 1 / 2 ^ 55)\<close>, the
  next one into \<open>(1/2, 1/4, 1/2, 1 / 2 ^ 55)\<close> again, and so on; in every sweep one page
  of four changes by less than the threshold. All the numbers that occur are in the range
  of the normal doubles.
\<close>

lemma iterate_pagerank_binary64_cycle:
  "iterate_pagerank binary64
     [(''A'', {|''C''|}), (''B'', {|''A''|}), (''C'', {|''B''|}), (''D'', {|''A''|})]
     (1 - 1 / 2 ^ 53) = None"
proof -
  let ?G = "[(''A'', {|''C''|}), (''B'', {|''A''|}), (''C'', {|''B''|}), (''D'', {|''A''|})] :: corpus"
  let ?d = "1 - 1 / 2 ^ 53 :: real"
  let ?R = "[(''A'', 1 / 4), (''B'', 1 / 4), (''C'', 1 / 4), (''D'', 1 / 4)] :: rankmap"
  let ?X = "[(''A'', 1 / 2), (''B'', 1 / 4), (''C'', 1 / 2), (''D'', 1 / 2 ^ 55)] :: rankmap"
  let ?Y = "[(''A'', 1 / 4), (''B'', 1 / 2), (''C'', 1 / 4), (''D'', 1 / 2 ^ 55)] :: rankmap"
  have i: "init_ranks binary64 (map fst ?G) (length ?G) [] = Inr ?R" by code_simp
  have map4: "map fst ?G = [''A'', ''B'', ''C'', ''D'']" by simp
  have R1: "sweep_loop binary64 [''A'', ''B'', ''C'', ''D''] ?G ?d
       [(''A'', 1 / 4), (''B'', 1 / 4), (''C'', 1 / 4), (''D'', 1 / 4)] 0 =
     sweep_loop binary64 [''B'', ''C'', ''D''] ?G ?d
       [(''A'', 1 / 2), (''B'', 1 / 4), (''C'', 1 / 4), (''D'', 1 / 4)] 0"
    by (rule sweep_loop_step [where ?new0.0 = "1 / 2 ^ 55" and sigma = "1 / 2" and old = "1 / 4" and new = "1 / 2"];
        code_simp)
  have R2: "sweep_loop binary64 [''B'', ''C'', ''D''] ?G ?d
       [(''A'', 1 / 2), (''B'', 1 / 4), (''C'', 1 / 4), (''D'', 1 / 4)] 0 =
     sweep_loop binary64 [''C'', ''D''] ?G ?d
       [(''A'', 1 / 2), (''B'', 1 / 4), (''C'', 1 / 4), (''D'', 1 / 4)] 1"
    by (rule sweep_loop_step [where ?new0.0 = "1 / 2 ^ 55" and sigma = "1 / 4" and old = "1 / 4" and new = "1 / 4"];
        code_simp)
  have R3: "sweep_loop binary64 [''C'', ''D''] ?G ?d
       [(''A'', 1 / 2), (''B'', 1 / 4), (''C'', 1 / 4), (''D'', 1 / 4)] 1 =
     sweep_loop binary64 [''D''] ?G ?d
       [(''A'', 1 / 2), (''B'', 1 / 4), (''C'', 1 / 2), (''D'', 1 / 4)] 1"
    by (rule sweep_loop_step [where ?new0.0 = "1 / 2 ^ 55" and sigma = "1 / 2" and old = "1 / 4" and new = "1 / 2"];
        code_simp)
  have R4: "sweep_loop binary64 [''D''] ?G ?d
       [(''A'', 1 / 2), (''B'', 1 / 4), (''C'', 1 / 2), (''D'', 1 / 4)] 1 =
     sweep_loop binary64 [] ?G ?d
       [(''A'', 1 / 2), (''B'', 1 / 4), (''C'', 1 / 2), (''D'', 1 / 2 ^ 55)] 1"
    by (rule sweep_loop_step [where ?new0.0 = "1 / 2 ^ 55" and sigma = "0" and old = "1 / 4" and new = "1 / 2 ^ 55"];
        code_simp)
  have sR: "sweep binary64 ?G ?d
       [(''A'', 1 / 4), (''B'', 1 / 4), (''C'', 1 / 4), (''D'', 1 / 4)] =
     Inr ([(''A'', 1 / 2), (''B'', 1 / 4), (''C'', 1 / 2), (''D'', 1 / 2 ^ 55)], 1)"
    unfolding sweep_def map4 R1 R2 R3 R4 by simp
  have X1: "sweep_loop binary64 [''A'', ''B'', ''C'', ''D''] ?G ?d
       [(''A'', 1 / 2), (''B'', 1 / 4), (''C'', 1 / 2), (''D'', 1 / 2 ^ 55)] 0 =
     sweep_loop binary64 [''B'', ''C'', ''D''] ?G ?d
       [(''A'', 1 / 4), (''B'', 1 / 4), (''C'', 1 / 2), (''D'', 1 / 2 ^ 55)] 0"
    by (rule sweep_loop_step [where ?new0.0 = "1 / 2 ^ 55" and sigma = "1 / 4" and old = "1 / 2" and new = "1 / 4"];
        code_simp)
  have X2: "sweep_loop binary64 [''B'', ''C'', ''D''] ?G ?d
       [(''A'', 1 / 4), (''B'', 1 / 4), (''C'', 1 / 2), (''D'', 1 / 2 ^ 55)] 0 =
     sweep_loop binary64 [''C'', ''D''] ?G ?d
       [(''A'', 1 / 4), (''B'', 1 / 2), (''C'', 1 / 2), (''D'', 1 / 2 ^ 55)] 0"
    by (rule sweep_loop_step [where ?new0.0 = "1 / 2 ^ 55" and sigma = "1 / 2" and old = "1 / 4" and new = "1 / 2"];
        code_simp)
  have X3: "sweep_loop binary64 [''C'', ''D''] ?G ?d
       [(''A'', 1 / 4), (''B'', 1 / 2), (''C'', 1 / 2), (''D'', 1 / 2 ^ 55)] 0 =
     sweep_loop binary64 [''D''] ?G ?d
       [(''A'', 1 / 4), (''B'', 1 / 2), (''C'', 1 / 4), (''D'', 1 / 2 ^ 55)] 0"
    by (rule sweep_loop_step [where ?new0.0 = "1 / 2 ^ 55" and sigma = "1 / 4" and old = "1 / 2" and new = "1 / 4"];
        code_simp)
  have X4: "sweep_loop binary64 [''D''] ?G ?d
       [(''A'', 1 / 4), (''B'', 1 / 2), (''C'', 1 / 4), (''D'', 1 / 2 ^ 55)] 0 =
     sweep_loop binary64 [] ?G ?d
       [(''A'', 1 / 4), (''B'', 1 / 2), (''C'', 1 / 4), (''D'', 1 / 2 ^ 55)] 1"
    by (rule sweep_loop_step [where ?new0.0 = "1 / 2 ^ 55" and sigma = "0" and old = "1 / 2 ^ 55" and new = "1 / 2 ^ 55"];
        code_simp)
  have sX: "sweep binary64 ?G ?d
       [(''A'', 1 / 2), (''B'', 1 / 4), (''C'', 1 / 2), (''D'', 1 / 2 ^ 55)] =
     Inr ([(''A'', 1 / 4), (''B'', 1 / 2), (''C'', 1 / 4), (''D'', 1 / 2 ^ 55)], 1)"
    unfolding sweep_def map4 X1 X2 X3 X4 by simp
  have Y1: "sweep_loop binary64 [''A'', ''B'', ''C'', ''D''] ?G ?d
       [(''A'', 1 / 4), (''B'', 1 / 2), (''C'', 1 / 4), (''D'', 1 / 2 ^ 55)] 0 =
     sweep_loop binary64 [''B'', ''C'', ''D''] ?G ?d
       [(''A'', 1 / 2), (''B'', 1 / 2), (''C'', 1 / 4), (''D'', 1 / 2 ^ 55)] 0"
    by (rule sweep_loop_step [where ?new0.0 = "1 / 2 ^ 55" and sigma = "1 / 2" and old = "1 / 4" and new = "1 / 2"];
        code_simp)
  have Y2: "sweep_loop binary64 [''B'', ''C'', ''D''] ?G ?d
       [(''A'', 1 / 2), (''B'', 1 / 2), (''C'', 1 / 4), (''D'', 1 / 2 ^ 55)] 0 =
     sweep_loop binary64 [''C'', ''D''] ?G ?d
       [(''A'', 1 / 2), (''B'', 1 / 4), (''C'', 1 / 4), (''D'', 1 / 2 ^ 55)] 0"
    by (rule sweep_loop_step [where ?new0.0 = "1 / 2 ^ 55" and sigma = "1 / 4" and old = "1 / 2" and new = "1 / 4"];
        code_simp)
  have Y3: "sweep_loop binary64 [''C'', ''D''] ?G ?d
       [(''A'', 1 / 2), (''B'', 1 / 4), (''C'', 1 / 4), (''D'', 1 / 2 ^ 55)] 0 =
     sweep_loop binary64 [''D''] ?G ?d
       [(''A'', 1 / 2), (''B'', 1 / 4), (''C'', 1 / 2), (''D'', 1 / 2 ^ 55)] 0"
    by (rule sweep_loop_step [where ?new0.0 = "1 / 2 ^ 55" and sigma = "1 / 2" and old = "1 / 4" and new = "1 / 2"];
        code_simp)
  have Y4: "sweep_loop binary64 [''D''] ?G ?d
       [(''A'', 1 / 2), (''B'', 1 / 4), (''C'', 1 / 2), (''D'', 1 / 2 ^ 55)] 0 =
     sweep_loop binary64 [] ?G ?d
       [(''A'', 1 / 2), (''B'', 1 / 4), (''C'', 1 / 2), (''D'', 1 / 2 ^ 55)] 1"
    by (rule sweep_loop_step [where ?new0.0 = "1 / 2 ^ 55" and sigma = "0" and old = "1 / 2 ^ 55" and new = "1 / 2 ^ 55"];
        code_simp)
  have sY: "sweep binary64 ?G ?d
       [(''A'', 1 / 4), (''B'', 1 / 2), (''C'', 1 / 4), (''D'', 1 / 2 ^ 55)] =
     Inr ([(''A'', 1 / 2), (''B'', 1 / 4), (''C'', 1 / 2), (''D'', 1 / 2 ^ 55)], 1)"
    unfolding sweep_def map4 Y1 Y2 Y3 Y4 by simp
  have never: "rd = binary64 \<and> corpus = ?G \<and> d = ?d \<and> (ranks = ?X \<or> ranks = ?Y) \<longrightarrow> False"
    if run: "iterate_loop rd corpus d ranks = Some res" for rd corpus d ranks res
  proof (rule iterate_loop.raw_induct [where P = "\<lambda>rd corpus d ranks res.
      rd = binary64 \<and> corpus = ?G \<and> d = ?d \<and> (ranks = ?X \<or> ranks = ?Y) \<longrightarrow> False", OF _ run])
    fix loop :: "rounding \<Rightarrow> corpus \<Rightarrow> real \<Rightarrow> rankmap \<Rightarrow> (error + rankmap) option"
    fix rd corpus d ranks res
    assume IH: "\<And>rd corpus d ranks res. loop rd corpus d ranks = Some res \<Longrightarrow>
        rd = binary64 \<and> corpus = ?G \<and> d = ?d \<and> (ranks = ?X \<or> ranks = ?Y) \<longrightarrow> False"
    assume step: "(case sweep rd corpus d ranks of
          Inl e \<Rightarrow> Some (Inl e)
        | Inr (ranks', count) \<Rightarrow>
            if count = length corpus then Some (Inr ranks') else loop rd corpus d ranks') = Some res"
    show "rd = binary64 \<and> corpus = ?G \<and> d = ?d \<and> (ranks = ?X \<or> ranks = ?Y) \<longrightarrow> False"
    proof
      assume a: "rd = binary64 \<and> corpus = ?G \<and> d = ?d \<and> (ranks = ?X \<or> ranks = ?Y)"
      then have rd: "rd = binary64" and c: "corpus = ?G" and d: "d = ?d" by blast+
      from a consider "ranks = ?X" | "ranks = ?Y" by blast
      then show False
      proof cases
        case 1
        from step have "loop binary64 ?G ?d ?Y = Some res"
          unfolding rd c d 1 sX by simp
        from IH [OF this] show False by blast
      next
        case 2
        from step have "loop binary64 ?G ?d ?X = Some res"
          unfolding rd c d 2 sY by simp
        from IH [OF this] show False by blast
      qed
    qed
  qed
  have "iterate_pagerank binary64 ?G ?d = iterate_loop binary64 ?G ?d ?R"
    unfolding iterate_pagerank_def i by (simp only: sum.case)
  also have "\<dots> = iterate_loop binary64 ?G ?d ?X"
    using iterate_loop.simps [of binary64 ?G ?d ?R] unfolding sR by simp
  finally have start: "iterate_pagerank binary64 ?G ?d = iterate_loop binary64 ?G ?d ?X" .
  show ?thesis
  proof (cases "iterate_loop binary64 ?G ?d ?X")
    case None
    with start show ?thesis by simp
  next
    case (Some res)
    from never [OF Some] show ?thesis by blast
  qed
qed

text \<open>
  Claim C4 as stated fails, twice. There is no \<^verbatim>\<open>max_iterations\<close>: on the corpus
  \<^verbatim>\<open>{"B": set(), "A": {"B"}}\<close> with damping \<^verbatim>\<open>0.85\<close> the first sweep does not converge (one
  page of two is below the threshold); with a bound of one sweep the claim has the function
  stop there with the ranks of that sweep, and the function goes on and returns the ranks of
  the third sweep. And the function does not always terminate: with the floating-point
  numbers of the program, on the corpus \<^verbatim>\<open>{"A": {"C"}, "B": {"A"}, "C": {"B"}, "D": {"A"}}\<close>
  with the damping \<^verbatim>\<open>0.9999999999999999\<close>, it never returns.
\<close>

theorem iterate_pagerank_unbounded_sweeps:
  "sweep exact [(''B'', {||}), (''A'', {|''B''|})] (85 / 100) [(''B'', 1 / 2), (''A'', 1 / 2)] =
     Inr ([(''B'', 1 / 2), (''A'', 3 / 40)], 1) \<and>
   iterate_pagerank exact [(''B'', {||}), (''A'', {|''B''|})] (85 / 100) =
     Some (Inr [(''B'', 111 / 800), (''A'', 3 / 40)]) \<and>
   iterate_pagerank binary64
     [(''A'', {|''C''|}), (''B'', {|''A''|}), (''C'', {|''B''|}), (''D'', {|''A''|})]
     (binary64 (9999999999999999 / 10000000000000000)) = None"
proof -
  let ?G = "[(''B'', {||}), (''A'', {|''B''|})]"
  have i: "init_ranks exact (map fst ?G) (length ?G) [] = Inr [(''B'', 1 / 2), (''A'', 1 / 2)]"
    by code_simp
  have s1: "sweep exact ?G (85 / 100) [(''B'', 1 / 2), (''A'', 1 / 2)] =
      Inr ([(''B'', 1 / 2), (''A'', 3 / 40)], 1)" by code_simp
  have s2: "sweep exact ?G (85 / 100) [(''B'', 1 / 2), (''A'', 3 / 40)] =
      Inr ([(''B'', 111 / 800), (''A'', 3 / 40)], 1)" by code_simp
  have s3: "sweep exact ?G (85 / 100) [(''B'', 111 / 800), (''A'', 3 / 40)] =
      Inr ([(''B'', 111 / 800), (''A'', 3 / 40)], 2)" by code_simp
  have "iterate_pagerank exact ?G (85 / 100) =
      iterate_loop exact ?G (85 / 100) [(''B'', 1 / 2), (''A'', 1 / 2)]"
    unfolding iterate_pagerank_def i by simp
  also have "\<dots> = iterate_loop exact ?G (85 / 100) [(''B'', 1 / 2), (''A'', 3 / 40)]"
    by (subst iterate_loop.simps, unfold s1) simp
  also have "\<dots> = iterate_loop exact ?G (85 / 100) [(''B'', 111 / 800), (''A'', 3 / 40)]"
    by (subst iterate_loop.simps, unfold s2) simp
  also have "\<dots> = Some (Inr [(''B'', 111 / 800), (''A'', 3 / 40)])"
    by (subst iterate_loop.simps, unfold s3) simp
  finally have run: "iterate_pagerank exact ?G (85 / 100) =
      Some (Inr [(''B'', 111 / 800), (''A'', 3 / 40)])" .
  have cyc: "iterate_pagerank binary64
     [(''A'', {|''C''|}), (''B'', {|''A''|}), (''C'', {|''B''|}), (''D'', {|''A''|})]
     (binary64 (9999999999999999 / 10000000000000000)) = None"
    unfolding binary64_literal by (rule iterate_pagerank_binary64_cycle)
  from s1 run cyc show ?thesis by (intro conjI)
qed

section \<open>The sum of the ranks at convergence\<close>

lemma link_weight_column_closed:
  assumes dist: "distinct (map fst corpus)" and j: "j < length corpus"
    and ne: "snd (corpus ! j) \<noteq> {||}" and closed: "fset (snd (corpus ! j)) \<subseteq> set (map fst corpus)"
  shows "(\<Sum>i<length corpus. link_weight corpus i j) = 1"
proof -
  let ?N = "length corpus"
  let ?L = "snd (corpus ! j)"
  let ?A = "{..<?N} \<inter> {i. fst (corpus ! i) |\<in>| ?L}"
  have "(\<Sum>i<?N. link_weight corpus i j) =
      (\<Sum>i<?N. if fst (corpus ! i) |\<in>| ?L then 1 / real (fcard ?L) else 0)"
    by (simp add: link_weight_def)
  also have "\<dots> = sum (\<lambda>i. 1 / real (fcard ?L)) ?A + sum (\<lambda>i. 0) ({..<?N} \<inter> - {i. fst (corpus ! i) |\<in>| ?L})"
    by (rule sum.If_cases) simp
  also have "\<dots> = real (card ?A) / real (fcard ?L)" by simp
  finally have eq: "(\<Sum>i<?N. link_weight corpus i j) = real (card ?A) / real (fcard ?L)" .
  have inj: "inj_on (\<lambda>i. fst (corpus ! i)) ?A"
  proof (rule inj_onI)
    fix x y assume "x \<in> ?A" "y \<in> ?A" and e: "fst (corpus ! x) = fst (corpus ! y)"
    then have x: "x < length (map fst corpus)" and y: "y < length (map fst corpus)" by auto
    from x y e have "map fst corpus ! x = map fst corpus ! y" by simp
    then show "x = y" by (simp only: nth_eq_iff_index_eq [OF dist x y])
  qed
  have img: "(\<lambda>i. fst (corpus ! i)) ` ?A = fset ?L"
  proof
    show "(\<lambda>i. fst (corpus ! i)) ` ?A \<subseteq> fset ?L" by auto
    show "fset ?L \<subseteq> (\<lambda>i. fst (corpus ! i)) ` ?A"
    proof
      fix q assume q: "q \<in> fset ?L"
      with closed have "q \<in> set (map fst corpus)" by blast
      then obtain i where i: "i < length (map fst corpus)" and qi: "map fst corpus ! i = q"
        by (auto simp: in_set_conv_nth)
      then have "fst (corpus ! i) = q" and "i < ?N" by auto
      with q show "q \<in> (\<lambda>i. fst (corpus ! i)) ` ?A" by auto
    qed
  qed
  have "card ?A = card (fset ?L)" using card_image [OF inj] by (simp only: img)
  then have c: "card ?A = fcard ?L" by (simp add: fcard.rep_eq)
  from ne have "fcard ?L \<noteq> 0" by simp
  then have "real (fcard ?L) \<noteq> 0" by (simp only: of_nat_eq_0_iff) simp
  then show ?thesis unfolding eq c by simp
qed

lemma sum_tab_index:
  "sum_list (map snd (tab (map fst corpus) f)) = (\<Sum>j<length corpus. f (fst (corpus ! j)))"
proof -
  have "sum_list (map snd (tab (map fst corpus) f)) = sum_list (map (\<lambda>x. f (fst x)) corpus)"
    by (simp add: tab_def comp_def)
  also have "\<dots> = (\<Sum>j = 0..<length (map (\<lambda>x. f (fst x)) corpus). map (\<lambda>x. f (fst x)) corpus ! j)"
    by (rule sum_list_sum_nth)
  also have "\<dots> = (\<Sum>j<length corpus. f (fst (corpus ! j)))"
    by (simp add: atLeast0LessThan)
  finally show ?thesis .
qed

text \<open>
  Claim C7, amended. In exact arithmetic, for a non-empty corpus with distinct keys in
  which every page has at least one link and links only to pages of the corpus, and a
  damping \<open>d\<close> in \<open>(0, 1)\<close>, the ranks that \<^verbatim>\<open>iterate_pagerank\<close> returns sum to 1 up to
  \<open>d * N * 0.0005 / (1 - d)\<close>.
\<close>

theorem iterate_pagerank_sum_bound:
  assumes "distinct (map fst corpus)" and "corpus \<noteq> []" and "0 < d" and "d < 1"
    and "\<forall>(q, L) \<in> set corpus. L \<noteq> {||} \<and> fset L \<subseteq> set (map fst corpus)"
  shows "\<exists>ranks. iterate_pagerank exact corpus d = Some (Inr ranks) \<and>
     \<bar>sum_list (map snd ranks) - 1\<bar> \<le> d * real (length corpus) * (5 / 10000) / (1 - d)"
proof -
  let ?ks = "map fst corpus"
  let ?S = "gs_sweep exact corpus d"
  let ?r0 = "\<lambda>_::page. 1 / real (length corpus)"
  have dist: "distinct ?ks" by (rule assms(1))
  have d0: "0 \<le> d" using assms(3) by simp
  from iterate_pagerank_result [OF dist d0 assms(4)] obtain k where
    res: "iterate_pagerank exact corpus d = Some (Inr (tab ?ks ((?S ^^ Suc k) ?r0)))"
    and cb: "changes_below exact (tab ?ks ((?S ^^ k) ?r0)) (tab ?ks ((?S ^^ Suc k) ?r0))"
    by blast
  define r where "r = (?S ^^ k) ?r0"
  have r': "(?S ^^ Suc k) ?r0 = ?S r" by (simp add: r_def)
  have col: "(\<Sum>i<length corpus. link_weight corpus i j) = 1" if "j < length corpus" for j
  proof -
    from that have "corpus ! j \<in> set corpus" by simp
    with assms(5) have "snd (corpus ! j) \<noteq> {||}" "fset (snd (corpus ! j)) \<subseteq> set ?ks"
      by (auto simp: case_prod_beta)
    then show ?thesis by (rule link_weight_column_closed [OF dist that])
  qed
  have delta: "\<bar>r (fst (corpus ! j)) - ?S r (fst (corpus ! j))\<bar> < 5 / 10000"
    if "j < length corpus" for j
  proof -
    from that have "fst (corpus ! j) \<in> set ?ks" by simp
    with cb show ?thesis
      unfolding r' r_def [symmetric] changes_below_tab by (auto simp: exact_def threshold_def)
  qed
  have N: "0 < length corpus" using assms(2) by simp
  have "\<bar>(\<Sum>j<length corpus. ?S r (fst (corpus ! j))) - 1\<bar>
      \<le> d * real (length corpus) * (5 / 10000) / (1 - d)"
    by (rule gs_sum_bound [where M = "link_weight corpus" and u = "\<lambda>j. r (fst (corpus ! j))",
          OF link_weight_nonneg col d0 assms(4) N gs_sweep_index [OF dist] delta])
  then have "\<bar>sum_list (map snd (tab ?ks (?S r))) - 1\<bar>
      \<le> d * real (length corpus) * (5 / 10000) / (1 - d)"
    by (simp only: sum_tab_index)
  with res show ?thesis unfolding r' by blast
qed

theorem iterate_pagerank_sum_bound_witness:
  "distinct (map fst [(''A'', {|''B''|}), (''B'', {|''A''|}), (''C'', {|''A''|})]) \<and>
   [(''A'', {|''B''|}), (''B'', {|''A''|}), (''C'', {|''A''|})] \<noteq> ([] :: corpus) \<and>
   (0::real) < 1 / 5 \<and> (1::real) / 5 < 1 \<and>
   list_all (\<lambda>(q, L). L \<noteq> {||} \<and>
       fset L \<subseteq> set (map fst [(''A'', {|''B''|}), (''B'', {|''A''|}), (''C'', {|''A''|})]))
     [(''A'', {|''B''|}), (''B'', {|''A''|}), (''C'', {|''A''|})] \<and>
   (\<exists>ranks. iterate_pagerank exact [(''A'', {|''B''|}), (''B'', {|''A''|}), (''C'', {|''A''|})] (1 / 5)
        = Some (Inr ranks) \<and>
      \<bar>sum_list (map snd ranks) - 1\<bar> \<le> 3 / 8000)"
proof -
  let ?G = "[(''A'', {|''B''|}), (''B'', {|''A''|}), (''C'', {|''A''|})]"
  have d: "distinct (map fst ?G)" by simp
  have ne: "?G \<noteq> []" by simp
  have lo: "(0::real) < 1 / 5" and hi: "(1::real) / 5 < 1" by simp_all
  have cl: "\<forall>(q, L) \<in> set ?G. L \<noteq> {||} \<and> fset L \<subseteq> set (map fst ?G)" by simp
  from iterate_pagerank_sum_bound [OF d ne lo hi cl]
  have "\<exists>ranks. iterate_pagerank exact ?G (1 / 5) = Some (Inr ranks) \<and>
      \<bar>sum_list (map snd ranks) - 1\<bar> \<le> 3 / 8000" by simp
  moreover have "list_all (\<lambda>(q, L). L \<noteq> {||} \<and> fset L \<subseteq> set (map fst ?G)) ?G" by simp
  ultimately show ?thesis using d ne lo hi by (intro conjI)
qed

text \<open>
  Claim C7 as stated fails also where no page is dangling: on the corpus
  \<^verbatim>\<open>{"A": {"B"}, "B": {"A"}, "C": {"A"}}\<close> with damping \<^verbatim>\<open>0.2\<close> the function returns after
  three sweeps ranks that sum to \<open>46876 / 46875\<close>, which is further than \<open>1 / 1000000\<close> from 1.
\<close>

theorem iterate_pagerank_sum_off:
  "iterate_pagerank exact [(''A'', {|''B''|}), (''B'', {|''A''|}), (''C'', {|''A''|})] (1 / 5) =
     Some (Inr [(''A'', 3646 / 9375), (''B'', 5382 / 15625), (''C'', 4 / 15)]) \<and>
   1 / 1000000 <
     \<bar>sum_list (map snd [(''A'', 3646 / 9375), (''B'', 5382 / 15625), (''C'', 4 / 15 :: real)]) - 1\<bar>"
proof -
  let ?G = "[(''A'', {|''B''|}), (''B'', {|''A''|}), (''C'', {|''A''|})]"
  have i: "init_ranks exact (map fst ?G) (length ?G) [] =
      Inr [(''A'', 1 / 3), (''B'', 1 / 3), (''C'', 1 / 3)]"
    by code_simp
  have s1: "sweep exact ?G (1 / 5) [(''A'', 1 / 3), (''B'', 1 / 3), (''C'', 1 / 3)] =
      Inr ([(''A'', 2 / 5), (''B'', 26 / 75), (''C'', 4 / 15)], 0)" by code_simp
  have s2: "sweep exact ?G (1 / 5) [(''A'', 2 / 5), (''B'', 26 / 75), (''C'', 4 / 15)] =
      Inr ([(''A'', 146 / 375), (''B'', 646 / 1875), (''C'', 4 / 15)], 1)" by code_simp
  have s3: "sweep exact ?G (1 / 5) [(''A'', 146 / 375), (''B'', 646 / 1875), (''C'', 4 / 15)] =
      Inr ([(''A'', 3646 / 9375), (''B'', 5382 / 15625), (''C'', 4 / 15)], 3)" by code_simp
  have "iterate_pagerank exact ?G (1 / 5) =
      iterate_loop exact ?G (1 / 5) [(''A'', 1 / 3), (''B'', 1 / 3), (''C'', 1 / 3)]"
    unfolding iterate_pagerank_def i by simp
  also have "\<dots> = iterate_loop exact ?G (1 / 5) [(''A'', 2 / 5), (''B'', 26 / 75), (''C'', 4 / 15)]"
    by (subst iterate_loop.simps, unfold s1) simp
  also have "\<dots> = iterate_loop exact ?G (1 / 5)
      [(''A'', 146 / 375), (''B'', 646 / 1875), (''C'', 4 / 15)]"
    by (subst iterate_loop.simps, unfold s2) simp
  also have "\<dots> = Some (Inr [(''A'', 3646 / 9375), (''B'', 5382 / 15625), (''C'', 4 / 15)])"
    by (subst iterate_loop.simps, unfold s3) simp
  finally show ?thesis by simp
qed

section \<open>No division by zero\<close>

lemma iterate_loop_safe:
  assumes run: "iterate_loop rd corpus d ranks = Some res"
  shows "distinct (map fst corpus) \<longrightarrow> (\<exists>r. ranks = tab (map fst corpus) r) \<longrightarrow>
     (\<exists>r'. res = Inr (tab (map fst corpus) r'))"
proof (rule iterate_loop.raw_induct [where P = "\<lambda>rd corpus d ranks res.
    distinct (map fst corpus) \<longrightarrow> (\<exists>r. ranks = tab (map fst corpus) r) \<longrightarrow>
      (\<exists>r'. res = Inr (tab (map fst corpus) r'))", OF _ run])
  fix loop :: "rounding \<Rightarrow> corpus \<Rightarrow> real \<Rightarrow> rankmap \<Rightarrow> (error + rankmap) option"
  fix rd corpus d ranks res
  assume IH: "\<And>rd corpus d ranks res. loop rd corpus d ranks = Some res \<Longrightarrow>
      distinct (map fst corpus) \<longrightarrow> (\<exists>r. ranks = tab (map fst corpus) r) \<longrightarrow>
        (\<exists>r'. res = Inr (tab (map fst corpus) r'))"
  assume step: "(case sweep rd corpus d ranks of
        Inl e \<Rightarrow> Some (Inl e)
      | Inr (ranks', count) \<Rightarrow>
          if count = length corpus then Some (Inr ranks') else loop rd corpus d ranks') = Some res"
  show "distinct (map fst corpus) \<longrightarrow> (\<exists>r. ranks = tab (map fst corpus) r) \<longrightarrow>
      (\<exists>r'. res = Inr (tab (map fst corpus) r'))"
  proof (intro impI)
    assume dist: "distinct (map fst corpus)" and "\<exists>r. ranks = tab (map fst corpus) r"
    then obtain r where r: "ranks = tab (map fst corpus) r" by blast
    let ?c = "snd (sweep_fun rd corpus d (map fst corpus) (r, 0))"
    let ?r' = "tab (map fst corpus) (gs_sweep rd corpus d r)"
    from step have eq: "(if ?c = length corpus then Some (Inr ?r') else loop rd corpus d ?r') = Some res"
      by (simp add: r sweep_gs [OF dist])
    show "\<exists>r'. res = Inr (tab (map fst corpus) r')"
    proof (cases "?c = length corpus")
      case True
      with eq show ?thesis by auto
    next
      case False
      with eq have "loop rd corpus d ?r' = Some res" by simp
      from IH [OF this] dist show ?thesis by blast
    qed
  qed
qed

text \<open>
  Claim C8. For every rounding operator, every corpus with distinct keys and every page
  \<open>p\<close> of the corpus, dangling or not: \<^verbatim>\<open>transition_model\<close> applied to \<open>p\<close> returns a
  dictionary; the initialisation of \<^verbatim>\<open>iterate_pagerank\<close> and every sweep after it succeed;
  and \<^verbatim>\<open>iterate_pagerank\<close> never ends in an exception. Every division by a number of links
  is executed only when that number is at least 1.
\<close>

theorem no_division_error:
  assumes "distinct (map fst corpus)" and "(p, L) \<in> set corpus"
  shows "(\<exists>m. transition_model rd corpus p d = Inr m) \<and>
     (\<exists>r0. init_ranks rd (map fst corpus) (length corpus) [] = Inr r0 \<and>
        (\<forall>k. \<exists>ranks c. after_sweeps rd corpus d k r0 = Inr ranks \<and>
            sweep rd corpus d ranks = Inr c)) \<and>
     (\<forall>e. iterate_pagerank rd corpus d \<noteq> Some (Inl e))"
proof (intro conjI)
  show "\<exists>m. transition_model rd corpus p d = Inr m"
    using transition_model_eq [OF assms] by blast
next
  let ?ks = "map fst corpus"
  let ?r0 = "\<lambda>_::page. rd (1 / real (length corpus))"
  have "\<forall>k. \<exists>ranks c. after_sweeps rd corpus d k (tab ?ks ?r0) = Inr ranks \<and>
      sweep rd corpus d ranks = Inr c"
    using after_sweeps_tab [OF assms(1)] sweep_gs [OF assms(1)] by blast
  with init_ranks_tab [OF assms(1)]
  show "\<exists>r0. init_ranks rd ?ks (length corpus) [] = Inr r0 \<and>
        (\<forall>k. \<exists>ranks c. after_sweeps rd corpus d k r0 = Inr ranks \<and>
            sweep rd corpus d ranks = Inr c)" by blast
next
  show "\<forall>e. iterate_pagerank rd corpus d \<noteq> Some (Inl e)"
  proof (intro allI notI)
    fix e assume "iterate_pagerank rd corpus d = Some (Inl e)"
    then have "iterate_loop rd corpus d (tab (map fst corpus) (\<lambda>_. rd (1 / real (length corpus))))
        = Some (Inl e)" by (simp only: iterate_pagerank_loop [OF assms(1)])
    from iterate_loop_safe [OF this] assms(1) show False by blast
  qed
qed

theorem no_division_error_witness:
  "distinct (map fst [(''A'', {|''B'', ''C''|}), (''B'', {|''A'', ''C''|}), (''C'', {||})]) \<and>
   (''C'', {||}) \<in> set [(''A'', {|''B'', ''C''|}), (''B'', {|''A'', ''C''|}), (''C'', {||})] \<and>
   (\<exists>m. transition_model binary64 [(''A'', {|''B'', ''C''|}), (''B'', {|''A'', ''C''|}), (''C'', {||})]
          ''C'' (binary64 (85 / 100)) = Inr m) \<and>
   (\<forall>e. iterate_pagerank binary64 [(''A'', {|''B'', ''C''|}), (''B'', {|''A'', ''C''|}), (''C'', {||})]
          (binary64 (85 / 100)) \<noteq> Some (Inl e))"
proof -
  let ?G = "[(''A'', {|''B'', ''C''|}), (''B'', {|''A'', ''C''|}), (''C'', {||})]"
  have d: "distinct (map fst ?G)" by simp
  have m: "(''C'', {||}) \<in> set ?G" by simp
  from no_division_error [OF d m, of binary64 "binary64 (85 / 100)"] d m
  show ?thesis by blast
qed

section \<open>Dangling pages in the iterative solver\<close>

text \<open>
  With a dangling page the ranks returned by \<^verbatim>\<open>iterate_pagerank\<close> do not sum to 1.
\<close>

lemma iterate_pagerank_dangling_sum:
  "iterate_pagerank exact [(''A'', {|''B''|}), (''B'', {||})] (85 / 100) =
     Some (Inr [(''A'', 3 / 40), (''B'', 111 / 800)]) \<and>
   sum_list (map snd [(''A'', 3 / 40), (''B'', 111 / 800 :: real)]) = 171 / 800"
proof -
  let ?G = "[(''A'', {|''B''|}), (''B'', {||})]"
  have i: "init_ranks exact (map fst ?G) (length ?G) [] = Inr [(''A'', 1 / 2), (''B'', 1 / 2)]"
    by code_simp
  have s1: "sweep exact ?G (85 / 100) [(''A'', 1 / 2), (''B'', 1 / 2)] =
      Inr ([(''A'', 3 / 40), (''B'', 111 / 800)], 0)" by code_simp
  have s2: "sweep exact ?G (85 / 100) [(''A'', 3 / 40), (''B'', 111 / 800)] =
      Inr ([(''A'', 3 / 40), (''B'', 111 / 800)], 2)" by code_simp
  have "iterate_pagerank exact ?G (85 / 100) =
      iterate_loop exact ?G (85 / 100) [(''A'', 1 / 2), (''B'', 1 / 2)]"
    unfolding iterate_pagerank_def i by simp
  also have "\<dots> = iterate_loop exact ?G (85 / 100) [(''A'', 3 / 40), (''B'', 111 / 800)]"
    by (subst iterate_loop.simps, unfold s1) simp
  also have "\<dots> = Some (Inr [(''A'', 3 / 40), (''B'', 111 / 800)])"
    by (subst iterate_loop.simps, unfold s2) simp
  finally show ?thesis by simp
qed

lemma sweep_single_page:
  "sweep exact [(p, {||})] d [(p, x)] =
     Inr ([(p, 1 - d)], if \<bar>x - (1 - d)\<bar> < 5 / 10000 then 1 else 0)"
  by (simp add: sweep_def bind_err_def fdiv_def getitem_def exact_def threshold_def)

text \<open>
  Claim C9 does not hold of the code. On a corpus of one page without links, in exact
  arithmetic, \<^verbatim>\<open>sample_pagerank\<close> returns the rank 1 for every \<open>n \<ge> 1\<close>, but
  \<^verbatim>\<open>iterate_pagerank\<close> returns the rank \<open>1 - d\<close>: the rank of a page without links is
  passed on to no page.
\<close>

theorem single_page_ranks:
  assumes "valid_rng rng" and "1 \<le> n" and "0 < d" and "d < 1"
  shows "sample_pagerank exact rng [(p, {||})] d n = Inr [(p, 1)] \<and>
     iterate_pagerank exact [(p, {||})] d = Some (Inr [(p, 1 - d)])"
proof
  have dist: "distinct (map fst [(p, {||})])" by simp
  from sample_pagerank_visits [OF assms(1) dist _ assms(3,4,2)]
  obtain visits where len: "length visits = nat n" and sub: "set visits \<subseteq> {p}"
    and res: "sample_pagerank exact rng [(p, {||})] d n = Inr [(p, visit_share n visits p)]"
    by (auto simp: tab_def)
  from sub have "count_list visits p = length visits"
    by (induction visits) auto
  then have "visit_share n visits p = 1"
    using len assms(2) by (simp add: visit_share_def)
  with res show "sample_pagerank exact rng [(p, {||})] d n = Inr [(p, 1)]" by simp
next
  have start: "iterate_pagerank exact [(p, {||})] d = iterate_loop exact [(p, {||})] d [(p, 1)]"
    by (simp add: iterate_pagerank_def fdiv_def bind_err_def exact_def)
  have last: "iterate_loop exact [(p, {||})] d [(p, 1 - d)] = Some (Inr [(p, 1 - d)])"
    by (subst iterate_loop.simps, unfold sweep_single_page) simp
  have "iterate_loop exact [(p, {||})] d [(p, 1)] = Some (Inr [(p, 1 - d)])"
    by (subst iterate_loop.simps, unfold sweep_single_page) (simp add: last)
  with start show "iterate_pagerank exact [(p, {||})] d = Some (Inr [(p, 1 - d)])" by simp
qed

theorem single_page_ranks_witness:
  "valid_rng first_page \<and> (1::int) \<le> 10 \<and> (0::real) < 85 / 100 \<and> (85::real) / 100 < 1 \<and>
   sample_pagerank exact first_page [(''A'', {||})] (85 / 100) 10 = Inr [(''A'', 1)] \<and>
   iterate_pagerank exact [(''A'', {||})] (85 / 100) = Some (Inr [(''A'', 15 / 100)])"
  using single_page_ranks [OF valid_first_page, of 10 "85 / 100" "''A''"] valid_first_page
  by simp

end
